theory Spec2Isabelle
  imports Main
begin

section \<open>Launch Control XL 3 template programmer: data model\<close>

text \<open>
  A byte is an item of a Python \<^verbatim>\<open>bytes\<close> or \<^verbatim>\<open>bytearray\<close>, read as an integer in
  0..255; a SysEx message is a sequence of bytes.  The generator mutates bytearrays that it
  reaches through references, so bytearrays live in a heap: an address is the index of a
  bytearray in the heap and allocation appends.
\<close>

type_synonym byte = nat
type_synonym message = "byte list"
type_synonym addr = nat
type_synonym heap = "message list"

text \<open>Control map tuples \<^verbatim>\<open>(msg_index, cc_pos, ch_pos, color_pos, flag_pos [-1 if none])\<close>.\<close>

datatype control =
  Control (msg_index: nat) (cc_pos: nat) (ch_pos: nat) (color_pos: nat) (flag_pos: int)

datatype ChannelMode = PER_TEMPLATE | GLOBAL

datatype CCMode = RESTART_PER_TEMPLATE | CONTINUOUS

text \<open>
  The two \<^verbatim>\<open>ValueError\<close>s of the generator are told apart by their message:
  \<open>InvalidChannel\<close> is "Channel must be integer between 1 and 16", \<open>MissingParameter\<close> is
  "Global channel must be specified for GLOBAL channel mode".  \<open>IndexError\<close> is an index
  out of range, \<open>ByteRangeError\<close> the \<^verbatim>\<open>ValueError\<close> of storing a value outside
  0..255 into a bytearray.
\<close>

datatype error = InvalidChannel | MissingParameter | IndexError | ByteRangeError

subsection \<open>Constants\<close>

text \<open>
  The library modules import their tables from \<^verbatim>\<open>lib/constants.py\<close>, which is not among the
  sources.  \<open>CONTROLS\<close>, \<open>EMBEDDED_MSGS\<close>, \<open>COLOR_MAP\<close> and the channel and CC bounds are
  the ones written out in \<^verbatim>\<open>launchcontrol_xl3_programmer.py\<close> (lines 11-61).  The control
  table has 48 entries, 24 per message; the library agrees where it can be read: the
  docstring of \<^verbatim>\<open>_set_button_modes\<close> numbers the button controls 32-47 and the editor
  of \<^verbatim>\<open>led_mapper.py\<close> draws six rows of eight controls.
\<close>

definition MAX_CC_VALUE :: int where "MAX_CC_VALUE = 127"
definition MIN_CC_VALUE :: int where "MIN_CC_VALUE = 1"
definition MAX_MIDI_CHANNEL :: int where "MAX_MIDI_CHANNEL = 16"
definition MIN_MIDI_CHANNEL :: int where "MIN_MIDI_CHANNEL = 1"

text \<open>
  Modelled from the spec: \<^verbatim>\<open>SAFE_CC_MIN\<close>, \<^verbatim>\<open>SAFE_CC_MAX\<close> and \<^verbatim>\<open>DEFAULT_MIN_CC_VALUE\<close> of the
  missing \<^verbatim>\<open>lib/constants.py\<close>.  The spec gives the assignable range as [1,126] and the
  default first CC as 1.
\<close>

definition SAFE_CC_MIN :: int where "SAFE_CC_MIN = 1"
definition SAFE_CC_MAX :: int where "SAFE_CC_MAX = 126"
definition DEFAULT_MIN_CC_VALUE :: int where "DEFAULT_MIN_CC_VALUE = 1"

definition CONTROLS :: "control list" where
  "CONTROLS = [
     Control 0 37 34 32 35, Control 0 48 45 43 46, Control 0 59 56 54 57,
     Control 0 70 67 65 68, Control 0 81 78 76 79, Control 0 92 89 87 90,
     Control 0 103 100 98 101, Control 0 114 111 109 112, Control 0 125 122 120 123,
     Control 0 136 133 131 134, Control 0 147 144 142 145, Control 0 158 155 153 156,
     Control 0 169 166 164 167, Control 0 180 177 175 178, Control 0 191 188 186 189,
     Control 0 202 199 197 200, Control 0 213 210 208 211, Control 0 224 221 219 222,
     Control 0 235 232 230 233, Control 0 246 243 241 244, Control 0 257 254 252 255,
     Control 0 268 265 263 266, Control 0 279 276 274 277, Control 0 290 287 285 288,
     Control 1 37 34 32 35, Control 1 48 45 43 46, Control 1 59 56 54 57,
     Control 1 70 67 65 68, Control 1 81 78 76 79, Control 1 92 89 87 90,
     Control 1 103 100 98 101, Control 1 114 111 109 112, Control 1 141 138 136 139,
     Control 1 152 149 147 150, Control 1 163 160 158 161, Control 1 174 171 169 172,
     Control 1 185 182 180 183, Control 1 196 193 191 194, Control 1 207 204 202 205,
     Control 1 218 215 213 216, Control 1 229 226 224 227, Control 1 240 237 235 238,
     Control 1 251 248 246 249, Control 1 262 259 257 260, Control 1 273 270 268 271,
     Control 1 284 281 279 282, Control 1 295 292 290 293, Control 1 306 303 301 304]"

text \<open>The two embedded factory messages, 342 bytes each.\<close>

definition EMBEDDED_MSG_0 :: message where
  "EMBEDDED_MSG_0 = [
     0xF0, 0x00, 0x20, 0x29, 0x02, 0x15, 0x05, 0x00, 0x45, 0x00, 0x7F, 0x20, 0x10, 0x2A,
     0x4E, 0x65, 0x77, 0x20, 0x43, 0x75, 0x73, 0x74, 0x6F, 0x6D, 0x20, 0x4D, 0x6F, 0x64,
     0x65, 0x49, 0x10, 0x02, 0x05, 0x00, 0x01, 0x40, 0x00, 0x0D, 0x7F, 0x00, 0x49, 0x11,
     0x02, 0x05, 0x00, 0x01, 0x40, 0x00, 0x0E, 0x7F, 0x00, 0x49, 0x12, 0x02, 0x05, 0x00,
     0x01, 0x40, 0x00, 0x0F, 0x7F, 0x00, 0x49, 0x13, 0x02, 0x05, 0x00, 0x01, 0x40, 0x00,
     0x10, 0x7F, 0x00, 0x49, 0x14, 0x02, 0x05, 0x00, 0x01, 0x40, 0x00, 0x11, 0x7F, 0x00,
     0x49, 0x15, 0x02, 0x05, 0x00, 0x01, 0x40, 0x00, 0x12, 0x7F, 0x00, 0x49, 0x16, 0x02,
     0x05, 0x00, 0x01, 0x40, 0x00, 0x13, 0x7F, 0x00, 0x49, 0x17, 0x02, 0x05, 0x00, 0x01,
     0x40, 0x00, 0x14, 0x7F, 0x00, 0x49, 0x18, 0x02, 0x09, 0x00, 0x01, 0x40, 0x00, 0x15,
     0x7F, 0x00, 0x49, 0x19, 0x02, 0x09, 0x00, 0x01, 0x40, 0x00, 0x16, 0x7F, 0x00, 0x49,
     0x1A, 0x02, 0x09, 0x00, 0x01, 0x40, 0x00, 0x17, 0x7F, 0x00, 0x49, 0x1B, 0x02, 0x09,
     0x00, 0x01, 0x40, 0x00, 0x18, 0x7F, 0x00, 0x49, 0x1C, 0x02, 0x09, 0x00, 0x01, 0x40,
     0x00, 0x19, 0x7F, 0x00, 0x49, 0x1D, 0x02, 0x09, 0x00, 0x01, 0x40, 0x00, 0x1A, 0x7F,
     0x00, 0x49, 0x1E, 0x02, 0x09, 0x00, 0x01, 0x40, 0x00, 0x1B, 0x7F, 0x00, 0x49, 0x1F,
     0x02, 0x09, 0x00, 0x01, 0x40, 0x00, 0x1C, 0x7F, 0x00, 0x49, 0x20, 0x02, 0x0D, 0x00,
     0x01, 0x40, 0x00, 0x1D, 0x7F, 0x00, 0x49, 0x21, 0x02, 0x0D, 0x00, 0x01, 0x40, 0x00,
     0x1E, 0x7F, 0x00, 0x49, 0x22, 0x02, 0x0D, 0x00, 0x01, 0x40, 0x00, 0x1F, 0x7F, 0x00,
     0x49, 0x23, 0x02, 0x0D, 0x00, 0x01, 0x40, 0x00, 0x20, 0x7F, 0x00, 0x49, 0x24, 0x02,
     0x0D, 0x00, 0x01, 0x40, 0x00, 0x21, 0x7F, 0x00, 0x49, 0x25, 0x02, 0x0D, 0x00, 0x01,
     0x40, 0x00, 0x22, 0x7F, 0x00, 0x49, 0x26, 0x02, 0x0D, 0x00, 0x01, 0x40, 0x00, 0x23,
     0x7F, 0x00, 0x49, 0x27, 0x02, 0x0D, 0x00, 0x01, 0x40, 0x00, 0x24, 0x7F, 0x00, 0x60,
     0x10, 0x60, 0x11, 0x60, 0x12, 0x60, 0x13, 0x60, 0x14, 0x60, 0x15, 0x60, 0x16, 0x60,
     0x17, 0x60, 0x18, 0x60, 0x19, 0x60, 0x1A, 0x60, 0x1B, 0x60, 0x1C, 0x60, 0x1D, 0x60,
     0x1E, 0x60, 0x1F, 0x60, 0x20, 0x60, 0x21, 0x60, 0x22, 0x60, 0x23, 0x60, 0x24, 0x60,
     0x25, 0x60, 0x26, 0x60, 0x27, 0xF7]"

definition EMBEDDED_MSG_1 :: message where
  "EMBEDDED_MSG_1 = [
     0xF0, 0x00, 0x20, 0x29, 0x02, 0x15, 0x05, 0x00, 0x45, 0x03, 0x7F, 0x20, 0x10, 0x2A,
     0x4E, 0x65, 0x77, 0x20, 0x43, 0x75, 0x73, 0x74, 0x6F, 0x6D, 0x20, 0x4D, 0x6F, 0x64,
     0x65, 0x49, 0x28, 0x02, 0x00, 0x00, 0x01, 0x40, 0x00, 0x05, 0x7F, 0x00, 0x49, 0x29,
     0x02, 0x00, 0x00, 0x01, 0x40, 0x00, 0x06, 0x7F, 0x00, 0x49, 0x2A, 0x02, 0x00, 0x00,
     0x01, 0x40, 0x00, 0x07, 0x7F, 0x00, 0x49, 0x2B, 0x02, 0x00, 0x00, 0x01, 0x40, 0x00,
     0x08, 0x7F, 0x00, 0x49, 0x2C, 0x02, 0x00, 0x00, 0x01, 0x40, 0x00, 0x09, 0x7F, 0x00,
     0x49, 0x2D, 0x02, 0x00, 0x00, 0x01, 0x40, 0x00, 0x0A, 0x7F, 0x00, 0x49, 0x2E, 0x02,
     0x00, 0x00, 0x01, 0x40, 0x00, 0x0B, 0x7F, 0x00, 0x49, 0x2F, 0x02, 0x00, 0x00, 0x01,
     0x40, 0x00, 0x0C, 0x7F, 0x00, 0x60, 0x28, 0x60, 0x29, 0x60, 0x2A, 0x60, 0x2B, 0x60,
     0x2C, 0x60, 0x2D, 0x60, 0x2E, 0x60, 0x2F, 0x49, 0x30, 0x02, 0x19, 0x03, 0x01, 0x50,
     0x00, 0x25, 0x7F, 0x00, 0x49, 0x31, 0x02, 0x19, 0x03, 0x01, 0x50, 0x00, 0x26, 0x7F,
     0x00, 0x49, 0x32, 0x02, 0x19, 0x03, 0x01, 0x50, 0x00, 0x27, 0x7F, 0x00, 0x49, 0x33,
     0x02, 0x19, 0x03, 0x01, 0x50, 0x00, 0x28, 0x7F, 0x00, 0x49, 0x34, 0x02, 0x19, 0x03,
     0x01, 0x50, 0x00, 0x29, 0x7F, 0x00, 0x49, 0x35, 0x02, 0x19, 0x03, 0x01, 0x50, 0x00,
     0x2A, 0x7F, 0x00, 0x49, 0x36, 0x02, 0x19, 0x03, 0x01, 0x50, 0x00, 0x2B, 0x7F, 0x00,
     0x49, 0x37, 0x02, 0x19, 0x03, 0x01, 0x50, 0x00, 0x2C, 0x7F, 0x00, 0x49, 0x38, 0x02,
     0x25, 0x03, 0x01, 0x50, 0x00, 0x2D, 0x7F, 0x00, 0x49, 0x39, 0x02, 0x25, 0x03, 0x01,
     0x50, 0x00, 0x2E, 0x7F, 0x00, 0x49, 0x3A, 0x02, 0x25, 0x03, 0x01, 0x50, 0x00, 0x2F,
     0x7F, 0x00, 0x49, 0x3B, 0x02, 0x25, 0x03, 0x01, 0x50, 0x00, 0x30, 0x7F, 0x00, 0x49,
     0x3C, 0x02, 0x25, 0x03, 0x01, 0x50, 0x00, 0x31, 0x7F, 0x00, 0x49, 0x3D, 0x02, 0x25,
     0x03, 0x01, 0x50, 0x00, 0x32, 0x7F, 0x00, 0x49, 0x3E, 0x02, 0x25, 0x03, 0x01, 0x50,
     0x00, 0x33, 0x7F, 0x00, 0x49, 0x3F, 0x02, 0x25, 0x03, 0x01, 0x50, 0x00, 0x34, 0x7F,
     0x00, 0x60, 0x30, 0x60, 0x31, 0x60, 0x32, 0x60, 0x33, 0x60, 0x34, 0x60, 0x35, 0x60,
     0x36, 0x60, 0x37, 0x60, 0x38, 0x60, 0x39, 0x60, 0x3A, 0x60, 0x3B, 0x60, 0x3C, 0x60,
     0x3D, 0x60, 0x3E, 0x60, 0x3F, 0xF7]"

definition EMBEDDED_MSGS :: "message list" where
  "EMBEDDED_MSGS = [EMBEDDED_MSG_0, EMBEDDED_MSG_1]"

text \<open>\<^verbatim>\<open>COLOR_MAP\<close> is a dict; its insertion order is the order of the reverse lookup.\<close>

definition COLOR_MAP :: "(string \<times> byte) list" where
  "COLOR_MAP = [
     (''red'', 0x05), (''orange'', 0x09), (''yellow'', 0x0D), (''lime'', 0x11),
     (''green'', 0x19), (''turquoise'', 0x1D), (''cyan'', 0x21), (''light_blue'', 0x25),
     (''blue'', 0x29), (''dark_blue'', 0x2D), (''purple'', 0x31), (''fuchsia'', 0x35),
     (''pink'', 0x39), (''off'', 0x03), (''disabled'', 0x00)]"

text \<open>
  Modelled from the spec: \<^verbatim>\<open>DEVICE_LAYOUT\<close> of the missing \<^verbatim>\<open>lib/constants.py\<close>, the
  section table that sends a control index to its grid position: three knob rows, the
  slider row, two button rows, eight columns each.  The rows are numbered as the editor's
  drawing code reads them (knobs 0-2, sliders 3, buttons 4-5).
\<close>

definition DEVICE_LAYOUT :: "(string \<times> (nat \<times> nat) list) list" where
  "DEVICE_LAYOUT = [
     (''knobs_top'', [(0,0), (0,1), (0,2), (0,3), (0,4), (0,5), (0,6), (0,7)]),
     (''knobs_mid'', [(1,0), (1,1), (1,2), (1,3), (1,4), (1,5), (1,6), (1,7)]),
     (''knobs_bot'', [(2,0), (2,1), (2,2), (2,3), (2,4), (2,5), (2,6), (2,7)]),
     (''sliders'', [(3,0), (3,1), (3,2), (3,3), (3,4), (3,5), (3,6), (3,7)]),
     (''buttons_top'', [(4,0), (4,1), (4,2), (4,3), (4,4), (4,5), (4,6), (4,7)]),
     (''buttons_bot'', [(5,0), (5,1), (5,2), (5,3), (5,4), (5,5), (5,6), (5,7)])]"

subsection \<open>Bytearrays on the heap\<close>

text \<open>\<^verbatim>\<open>bytearray(msg)\<close>: a fresh bytearray holding a copy of \<open>msg\<close>.\<close>

definition new_bytearray :: "heap \<Rightarrow> message \<Rightarrow> addr \<times> heap" where
  "new_bytearray h msg = (length h, h @ [msg])"

text \<open>\<^verbatim>\<open>[bytearray(msg) for msg in msgs]\<close>.\<close>

fun new_bytearrays :: "heap \<Rightarrow> message list \<Rightarrow> addr list \<times> heap" where
  "new_bytearrays h [] = ([], h)"
| "new_bytearrays h (msg # msgs) =
     (let (a, h1) = new_bytearray h msg;
          (as, h2) = new_bytearrays h1 msgs
      in (a # as, h2))"

text \<open>
  \<^verbatim>\<open>messages[msg_index][pos] = value\<close>: the list index is checked, then the bytearray
  index, then the value.  On an error the heap is as before.
\<close>

definition set_byte :: "heap \<Rightarrow> addr list \<Rightarrow> nat \<Rightarrow> nat \<Rightarrow> int \<Rightarrow> error + heap" where
  "set_byte h messages m pos val =
     (if m < length messages \<and> messages ! m < length h
         \<and> pos < length (h ! (messages ! m)) then
        if 0 \<le> val \<and> val \<le> 255 then
          Inr (h[messages ! m := (h ! (messages ! m))[pos := nat val]])
        else Inl ByteRangeError
      else Inl IndexError)"

text \<open>The byte at \<open>pos\<close> of the \<open>m\<close>-th message of a list of bytearray references.\<close>

definition byte_at :: "heap \<Rightarrow> addr list \<Rightarrow> nat \<Rightarrow> nat \<Rightarrow> byte" where
  "byte_at h messages m pos = h ! (messages ! m) ! pos"

section \<open>The library generator (\<^verbatim>\<open>lib/sysex_generator.py\<close>)\<close>

record generator =
  base_messages :: "addr list"

text \<open>\<^verbatim>\<open>__init__\<close>.\<close>

definition init :: "heap \<Rightarrow> generator \<times> heap" where
  "init h = (let (as, h1) = new_bytearrays h EMBEDDED_MSGS in (\<lparr>base_messages = as\<rparr>, h1))"

definition validate_channel :: "int \<Rightarrow> error + int" where
  "validate_channel channel_1_16 =
     (if \<not> (MIN_MIDI_CHANNEL \<le> channel_1_16 \<and> channel_1_16 \<le> MAX_MIDI_CHANNEL)
      then Inl InvalidChannel
      else Inr (channel_1_16 - 1))"

definition clone_messages :: "heap \<Rightarrow> generator \<Rightarrow> addr list \<times> heap" where
  "clone_messages h g = new_bytearrays h (map (\<lambda>a. h ! a) (base_messages g))"

text \<open>The body of the loop of \<^verbatim>\<open>_assign_continuous_controllers\<close> up to the write.\<close>

definition assign_cc_value :: "int \<Rightarrow> CCMode \<Rightarrow> int \<Rightarrow> int \<Rightarrow> bool \<Rightarrow> nat \<Rightarrow> int" where
  "assign_cc_value template_index cc_mode safe_min_cc available_ccs cc_reverse control_index =
     (let cc_offset =
            (if cc_mode = RESTART_PER_TEMPLATE then int control_index
             else template_index * int (length CONTROLS) + int control_index)
      in if cc_offset \<ge> available_ccs then 0
         else if cc_reverse then
           (let cc_value = SAFE_CC_MAX - cc_offset
            in if cc_value < SAFE_CC_MIN then 0 else cc_value)
         else
           (let cc_value = safe_min_cc + cc_offset
            in if cc_value > SAFE_CC_MAX then 0 else cc_value))"

text \<open>
  The loop over \<^verbatim>\<open>enumerate(CONTROLS)\<close>; an exception leaves the loop with the heap as
  it is at that moment.
\<close>

fun assign_loop ::
  "control list \<Rightarrow> nat \<Rightarrow> int \<Rightarrow> CCMode \<Rightarrow> int \<Rightarrow> int \<Rightarrow> bool \<Rightarrow> heap \<Rightarrow> addr list
     \<Rightarrow> (error + unit) \<times> heap" where
  "assign_loop [] control_index t cc_mode safe_min_cc available_ccs cc_reverse h messages = (Inr (), h)"
| "assign_loop (c # cs) control_index t cc_mode safe_min_cc available_ccs cc_reverse h messages =
     (case set_byte h messages (msg_index c) (cc_pos c)
             (assign_cc_value t cc_mode safe_min_cc available_ccs cc_reverse control_index) of
        Inl e \<Rightarrow> (Inl e, h)
      | Inr h1 \<Rightarrow> assign_loop cs (Suc control_index) t cc_mode safe_min_cc available_ccs cc_reverse
          h1 messages)"

definition assign_continuous_controllers ::
  "heap \<Rightarrow> addr list \<Rightarrow> int \<Rightarrow> CCMode \<Rightarrow> int \<Rightarrow> bool \<Rightarrow> (error + unit) \<times> heap" where
  "assign_continuous_controllers h messages template_index cc_mode min_cc_value cc_reverse =
     (let safe_min_cc = max min_cc_value SAFE_CC_MIN;
          available_ccs = SAFE_CC_MAX - safe_min_cc + 1
      in assign_loop CONTROLS 0 template_index cc_mode safe_min_cc available_ccs cc_reverse
           h messages)"

text \<open>The loop of \<^verbatim>\<open>_set_midi_channel\<close>.\<close>

fun channel_loop :: "control list \<Rightarrow> int \<Rightarrow> heap \<Rightarrow> addr list \<Rightarrow> (error + unit) \<times> heap" where
  "channel_loop [] zero_based_channel h messages = (Inr (), h)"
| "channel_loop (c # cs) zero_based_channel h messages =
     (case set_byte h messages (msg_index c) (ch_pos c) zero_based_channel of
        Inl e \<Rightarrow> (Inl e, h)
      | Inr h1 \<Rightarrow>
          if flag_pos c \<ge> 0 then
            (case set_byte h1 messages (msg_index c) (nat (flag_pos c)) 0x00 of
               Inl e \<Rightarrow> (Inl e, h1)
             | Inr h2 \<Rightarrow> channel_loop cs zero_based_channel h2 messages)
          else channel_loop cs zero_based_channel h1 messages)"

definition set_midi_channel :: "heap \<Rightarrow> addr list \<Rightarrow> int \<Rightarrow> (error + unit) \<times> heap" where
  "set_midi_channel h messages channel_1_16 =
     (case validate_channel channel_1_16 of
        Inl e \<Rightarrow> (Inl e, h)
      | Inr zero_based_channel \<Rightarrow> channel_loop CONTROLS zero_based_channel h messages)"

text \<open>\<^verbatim>\<open>_set_button_modes\<close> is \<^verbatim>\<open>pass\<close>.\<close>

definition set_button_modes :: "heap \<Rightarrow> addr list \<Rightarrow> heap" where
  "set_button_modes h messages = h"

definition get_channel_for_template :: "int \<Rightarrow> ChannelMode \<Rightarrow> int option \<Rightarrow> error + int" where
  "get_channel_for_template template_num channel_mode global_channel =
     (if channel_mode = GLOBAL then
        (case global_channel of
           None \<Rightarrow> Inl MissingParameter
         | Some c \<Rightarrow> Inr c)
      else Inr (min template_num MAX_MIDI_CHANNEL))"

text \<open>
  \<^verbatim>\<open>generate_template\<close> returns the list of references to the patched clones, or the
  exception, together with the heap it leaves.
\<close>

definition generate_template ::
  "heap \<Rightarrow> generator \<Rightarrow> int \<Rightarrow> ChannelMode \<Rightarrow> CCMode \<Rightarrow> int option \<Rightarrow> int \<Rightarrow> bool
     \<Rightarrow> (error + addr list) \<times> heap" where
  "generate_template h g template_num channel_mode cc_mode global_channel min_cc_value
     cc_reverse =
     (let (messages, h1) = clone_messages h g in
      case get_channel_for_template template_num channel_mode global_channel of
        Inl e \<Rightarrow> (Inl e, h1)
      | Inr channel \<Rightarrow>
          (case set_midi_channel h1 messages channel of
             (Inl e, h2) \<Rightarrow> (Inl e, h2)
           | (Inr _, h2) \<Rightarrow>
               (let h3 = set_button_modes h2 messages;
                    template_index = template_num - 1
                in case assign_continuous_controllers h3 messages template_index cc_mode
                          min_cc_value cc_reverse of
                     (Inl e, h4) \<Rightarrow> (Inl e, h4)
                   | (Inr _, h4) \<Rightarrow> (Inr messages, h4))))"

section \<open>The legacy generator (\<^verbatim>\<open>launchcontrol_xl3_programmer.py\<close>)\<close>

definition legacy_cc_value :: "int \<Rightarrow> CCMode \<Rightarrow> nat \<Rightarrow> int" where
  "legacy_cc_value template_index cc_mode control_index =
     (if cc_mode = RESTART_PER_TEMPLATE then
        (int control_index mod MAX_CC_VALUE) + MIN_CC_VALUE
      else
        (let global_control_index = template_index * int (length CONTROLS) + int control_index
         in (global_control_index mod MAX_CC_VALUE) + MIN_CC_VALUE))"

fun legacy_assign_loop ::
  "control list \<Rightarrow> nat \<Rightarrow> int \<Rightarrow> CCMode \<Rightarrow> heap \<Rightarrow> addr list \<Rightarrow> (error + unit) \<times> heap" where
  "legacy_assign_loop [] control_index t cc_mode h messages = (Inr (), h)"
| "legacy_assign_loop (c # cs) control_index t cc_mode h messages =
     (case set_byte h messages (msg_index c) (cc_pos c)
             (legacy_cc_value t cc_mode control_index) of
        Inl e \<Rightarrow> (Inl e, h)
      | Inr h1 \<Rightarrow> legacy_assign_loop cs (Suc control_index) t cc_mode h1 messages)"

definition legacy_assign_continuous_controllers ::
  "heap \<Rightarrow> addr list \<Rightarrow> int \<Rightarrow> CCMode \<Rightarrow> (error + unit) \<times> heap" where
  "legacy_assign_continuous_controllers h messages template_index cc_mode =
     legacy_assign_loop CONTROLS 0 template_index cc_mode h messages"

section \<open>Sequences of writes\<close>

text \<open>
  Every patching loop of the generators is a sequence of byte writes
  \<open>(message index, position, value)\<close> that stops at the first exception.  \<open>write_all\<close>
  runs such a sequence; \<open>cc_writes\<close> and \<open>channel_writes\<close> list the writes of the loops.
\<close>

fun write_all :: "(nat \<times> nat \<times> int) list \<Rightarrow> heap \<Rightarrow> addr list \<Rightarrow> (error + unit) \<times> heap" where
  "write_all [] h messages = (Inr (), h)"
| "write_all ((m, pos, val) # ws) h messages =
     (case set_byte h messages m pos val of
        Inl e \<Rightarrow> (Inl e, h)
      | Inr h1 \<Rightarrow> write_all ws h1 messages)"

fun cc_writes :: "control list \<Rightarrow> nat \<Rightarrow> (nat \<Rightarrow> int) \<Rightarrow> (nat \<times> nat \<times> int) list" where
  "cc_writes [] control_index f = []"
| "cc_writes (c # cs) control_index f =
     (msg_index c, cc_pos c, f control_index) # cc_writes cs (Suc control_index) f"

fun channel_writes :: "control list \<Rightarrow> int \<Rightarrow> (nat \<times> nat \<times> int) list" where
  "channel_writes [] z = []"
| "channel_writes (c # cs) z =
     (msg_index c, ch_pos c, z)
       # (if flag_pos c \<ge> 0 then [(msg_index c, nat (flag_pos c), 0)] else [])
       @ channel_writes cs z"

text \<open>
  \<open>fits h messages\<close>: the references are distinct live bytearrays and every offset of the
  control table lies inside the message it names.
\<close>

definition fits :: "heap \<Rightarrow> addr list \<Rightarrow> bool" where
  "fits h messages \<longleftrightarrow>
     distinct messages \<and>
     (\<forall>a \<in> set messages. a < length h) \<and>
     (\<forall>c \<in> set CONTROLS.
        msg_index c < length messages \<and>
        cc_pos c < length (h ! (messages ! msg_index c)) \<and>
        ch_pos c < length (h ! (messages ! msg_index c)) \<and>
        color_pos c < length (h ! (messages ! msg_index c)) \<and>
        (flag_pos c \<ge> 0 \<longrightarrow> nat (flag_pos c) < length (h ! (messages ! msg_index c))))"

text \<open>
  The order of the control table: a later control lies in a later message, or in the same
  message at least one 11-byte record further on.
\<close>

definition before :: "control \<Rightarrow> control \<Rightarrow> bool" where
  "before c c' \<longleftrightarrow>
     msg_index c < msg_index c' \<or> (msg_index c = msg_index c' \<and> cc_pos c + 11 \<le> cc_pos c')"

text \<open>
  \<open>generator_ok h g\<close>: the state \<^verbatim>\<open>__init__\<close> establishes: the generator holds two
  references to live bytearrays whose contents are the embedded messages.
\<close>

definition generator_ok :: "heap \<Rightarrow> generator \<Rightarrow> bool" where
  "generator_ok h g \<longleftrightarrow>
     (\<forall>a \<in> set (base_messages g). a < length h) \<and>
     map (\<lambda>a. h ! a) (base_messages g) = EMBEDDED_MSGS"

text \<open>The positions that \<^verbatim>\<open>generate_template\<close> patches in message \<open>m\<close>.\<close>

definition patched :: "nat \<Rightarrow> nat \<Rightarrow> bool" where
  "patched m pos \<longleftrightarrow>
     (\<exists>c \<in> set CONTROLS. msg_index c = m \<and>
        (pos = cc_pos c \<or> pos = ch_pos c \<or> (flag_pos c \<ge> 0 \<and> pos = nat (flag_pos c))))"

section \<open>The LED colour mapper (\<^verbatim>\<open>lib/led_mapper.py\<close>)\<close>

subsection \<open>Splitting and joining SysEx messages\<close>

text \<open>The inner loop of \<^verbatim>\<open>_split_sysex_messages\<close>: the first index from \<open>end_idx\<close> on that
  holds 0xF7, or the length.\<close>

function find_end :: "message \<Rightarrow> nat \<Rightarrow> nat" where
  "find_end sysex_data end_idx =
     (if end_idx < length sysex_data \<and> sysex_data ! end_idx \<noteq> 0xF7
      then find_end sysex_data (end_idx + 1)
      else end_idx)"
  by pat_completeness auto
termination
  by (relation "measure (\<lambda>(sysex_data, end_idx). length sysex_data - end_idx)") auto

declare find_end.simps [simp del]

lemma find_end_ge: "end_idx \<le> find_end sysex_data end_idx"
proof (induction sysex_data end_idx rule: find_end.induct)
  case (1 sysex_data end_idx)
  show ?case
  proof (cases "end_idx < length sysex_data \<and> sysex_data ! end_idx \<noteq> 0xF7")
    case True
    with "1.IH" have "end_idx + 1 \<le> find_end sysex_data (end_idx + 1)" by simp
    with True show ?thesis by (subst find_end.simps) simp
  next
    case False
    then show ?thesis by (subst find_end.simps) auto
  qed
qed

text \<open>The outer loop; \<^verbatim>\<open>sysex_data[start:end + 1]\<close> is the slice appended.\<close>

function split_loop :: "message \<Rightarrow> nat \<Rightarrow> message list \<Rightarrow> message list" where
  "split_loop sysex_data start messages =
     (if start < length sysex_data then
        if sysex_data ! start \<noteq> 0xF0 then split_loop sysex_data (start + 1) messages
        else
          (let end_idx = find_end sysex_data (start + 1)
           in if end_idx < length sysex_data then
                split_loop sysex_data (end_idx + 1)
                  (messages @ [take (end_idx + 1 - start) (drop start sysex_data)])
              else messages)
      else messages)"
  by pat_completeness auto
termination
proof (relation "measure (\<lambda>(sysex_data, start, messages). length sysex_data - start)")
  show "wf (measure (\<lambda>(sysex_data :: message, start, messages :: message list).
              length sysex_data - start))"
    by simp
next
  fix sysex_data :: message and start :: nat and messages :: "message list"
  assume "start < length sysex_data" "sysex_data ! start \<noteq> 0xF0"
  then show "((sysex_data, start + 1, messages), (sysex_data, start, messages))
       \<in> measure (\<lambda>(sysex_data, start, messages). length sysex_data - start)"
    by simp
next
  fix sysex_data :: message and start :: nat and messages :: "message list" and x :: nat
  assume "start < length sysex_data" "\<not> sysex_data ! start \<noteq> 0xF0"
    "x = find_end sysex_data (start + 1)" "x < length sysex_data"
  with find_end_ge[of "start + 1" sysex_data]
  show "((sysex_data, x + 1,
          messages @ [take (x + 1 - start) (drop start sysex_data)]),
         (sysex_data, start, messages))
       \<in> measure (\<lambda>(sysex_data, start, messages). length sysex_data - start)"
    by simp
qed

declare split_loop.simps [simp del]

definition split_sysex_messages :: "message \<Rightarrow> message list" where
  "split_sysex_messages sysex_data = split_loop sysex_data 0 []"

text \<open>\<^verbatim>\<open>b"".join(bytes(msg) for msg in messages)\<close>.\<close>

definition join_messages :: "message list \<Rightarrow> message" where
  "join_messages messages = concat messages"

subsection \<open>Colours\<close>

type_synonym colors = "(nat \<times> nat) \<rightharpoonup> string"

text \<open>The reverse lookup of \<^verbatim>\<open>_extract_colors_from_sysex\<close>: the first name of the dict
  whose value is the byte, \<^verbatim>\<open>'off'\<close> when there is none.\<close>

fun find_color_name :: "(string \<times> byte) list \<Rightarrow> byte \<Rightarrow> string" where
  "find_color_name [] color_value = ''off''"
| "find_color_name ((name, val) # items) color_value =
     (if val = color_value then name else find_color_name items color_value)"

text \<open>\<^verbatim>\<open>COLOR_MAP.get(color_name, COLOR_MAP['off'])\<close>.\<close>

definition color_map_get :: "string \<Rightarrow> byte" where
  "color_map_get color_name =
     (case map_of COLOR_MAP color_name of
        Some v \<Rightarrow> v
      | None \<Rightarrow> the (map_of COLOR_MAP ''off''))"

definition all_positions :: "(nat \<times> nat) list" where
  "all_positions =
     concat (map (\<lambda>section_name. the (map_of DEVICE_LAYOUT section_name))
       [''knobs_top'', ''knobs_mid'', ''knobs_bot'', ''sliders'', ''buttons_top'',
        ''buttons_bot''])"

text \<open>\<^verbatim>\<open>_control_index_to_position\<close>; \<open>None\<close> is the pair \<^verbatim>\<open>(None, None)\<close>.\<close>

definition control_index_to_position :: "nat \<Rightarrow> (nat \<times> nat) option" where
  "control_index_to_position control_index =
     (if control_index < length all_positions then Some (all_positions ! control_index)
      else None)"

text \<open>The loop of \<^verbatim>\<open>_extract_colors_from_sysex\<close> over \<^verbatim>\<open>enumerate(CONTROLS)\<close>, updating
  \<^verbatim>\<open>self.colors\<close>.\<close>

fun extract_loop :: "control list \<Rightarrow> nat \<Rightarrow> message list \<Rightarrow> colors \<Rightarrow> colors" where
  "extract_loop [] control_index messages cols = cols"
| "extract_loop (c # cs) control_index messages cols =
     (if msg_index c < length messages \<and> color_pos c < length (messages ! msg_index c) then
        (let color_value = messages ! msg_index c ! color_pos c;
             color_name = find_color_name COLOR_MAP color_value
         in case control_index_to_position control_index of
              Some (row, col) \<Rightarrow>
                extract_loop cs (Suc control_index) messages (cols((row, col) \<mapsto> color_name))
            | None \<Rightarrow> extract_loop cs (Suc control_index) messages cols)
      else extract_loop cs (Suc control_index) messages cols)"

definition extract_colors_from_sysex :: "colors \<Rightarrow> message \<Rightarrow> colors" where
  "extract_colors_from_sysex cols sysex_data =
     extract_loop CONTROLS 0 (split_sysex_messages sysex_data) cols"

text \<open>The loop of \<^verbatim>\<open>_apply_colors_to_sysex\<close>; the messages are the fresh bytearrays of the
  split, referenced from nowhere else.\<close>

fun apply_loop :: "control list \<Rightarrow> nat \<Rightarrow> colors \<Rightarrow> message list \<Rightarrow> message list" where
  "apply_loop [] control_index cols messages = messages"
| "apply_loop (c # cs) control_index cols messages =
     (if msg_index c < length messages \<and> color_pos c < length (messages ! msg_index c) then
        (case control_index_to_position control_index of
           Some (row, col) \<Rightarrow>
             (let color_name = (case cols (row, col) of Some n \<Rightarrow> n | None \<Rightarrow> ''off'');
                  color_value = color_map_get color_name
              in apply_loop cs (Suc control_index) cols
                   (messages[msg_index c := (messages ! msg_index c)[color_pos c := color_value]]))
         | None \<Rightarrow> apply_loop cs (Suc control_index) cols messages)
      else apply_loop cs (Suc control_index) cols messages)"

text \<open>\<^verbatim>\<open>_apply_colors_to_sysex\<close>; the result is the data written to the output file.\<close>

definition apply_colors_to_sysex :: "colors \<Rightarrow> message \<Rightarrow> message" where
  "apply_colors_to_sysex cols original_data =
     join_messages (apply_loop CONTROLS 0 cols (split_sysex_messages original_data))"

text \<open>A well-formed frame: 0xF0, a body holding neither marker, 0xF7.\<close>

definition well_formed :: "message \<Rightarrow> bool" where
  "well_formed f \<longleftrightarrow>
     (\<exists>body. f = 0xF0 # body @ [0xF7] \<and> 0xF0 \<notin> set body \<and> 0xF7 \<notin> set body)"

text \<open>The colour offsets named by the control table, per message.\<close>

definition color_offset :: "nat \<Rightarrow> nat \<Rightarrow> bool" where
  "color_offset m pos \<longleftrightarrow> (\<exists>c \<in> set CONTROLS. msg_index c = m \<and> color_pos c = pos)"

section \<open>Properties of write sequences\<close>


lemma set_byte_Inr:
  assumes "set_byte h ms m p v = Inr h'"
  shows "m < length ms" "ms ! m < length h" "p < length (h ! (ms ! m))" "0 \<le> v" "v \<le> 255"
        "h' = h[ms ! m := (h ! (ms ! m))[p := nat v]]"
  using assms by (auto simp: set_byte_def split: if_splits)

lemma set_byte_length:
  "set_byte h ms m p v = Inr h' \<Longrightarrow> length h' = length h"
  by (auto dest: set_byte_Inr(6))

lemma set_byte_length_nth:
  assumes "set_byte h ms m p v = Inr h'"
  shows "length (h' ! a) = length (h ! a)"
  using set_byte_Inr(2,6)[OF assms] by (cases "a = ms ! m") auto

lemma set_byte_same:
  "set_byte h ms m p v = Inr h' \<Longrightarrow> h' ! (ms ! m) ! p = nat v"
  by (frule set_byte_Inr(2), frule set_byte_Inr(3), drule set_byte_Inr(6)) simp

lemma set_byte_other:
  "set_byte h ms m p v = Inr h' \<Longrightarrow> a \<noteq> ms ! m \<or> q \<noteq> p \<Longrightarrow> h' ! a ! q = h ! a ! q"
  by (frule set_byte_Inr(2), drule set_byte_Inr(6)) (cases "a = ms ! m"; auto)

lemma write_all_length:
  "write_all ws h ms = (r, h') \<Longrightarrow> length h' = length h \<and> length (h' ! a) = length (h ! a)"
proof (induction ws arbitrary: h)
  case Nil
  then show ?case by simp
next
  case (Cons w ws)
  obtain m p v where w: "w = (m, p, v)" by (cases w)
  show ?case
  proof (cases "set_byte h ms m p v")
    case (Inl e)
    with Cons.prems w show ?thesis by simp
  next
    case (Inr h1)
    with Cons.prems w have "write_all ws h1 ms = (r, h')" by simp
    from Cons.IH[OF this] set_byte_length[OF Inr] set_byte_length_nth[OF Inr]
    show ?thesis by simp
  qed
qed

lemma write_all_frame:
  "write_all ws h ms = (r, h') \<Longrightarrow>
   \<forall>(m, p, v) \<in> set ws. \<not> (ms ! m = a \<and> p = q) \<Longrightarrow> h' ! a ! q = h ! a ! q"
proof (induction ws arbitrary: h)
  case Nil
  then show ?case by simp
next
  case (Cons w ws)
  obtain m p v where w: "w = (m, p, v)" by (cases w)
  show ?case
  proof (cases "set_byte h ms m p v")
    case (Inl e)
    with Cons.prems w show ?thesis by simp
  next
    case (Inr h1)
    with Cons.prems w have run: "write_all ws h1 ms = (r, h')" by simp
    from Cons.prems(2) w have "a \<noteq> ms ! m \<or> q \<noteq> p" by auto
    from set_byte_other[OF Inr this] have "h1 ! a ! q = h ! a ! q" .
    moreover from Cons.prems(2) have "\<forall>(m, p, v) \<in> set ws. \<not> (ms ! m = a \<and> p = q)" by simp
    from Cons.IH[OF run this] have "h' ! a ! q = h1 ! a ! q" .
    ultimately show ?thesis by simp
  qed
qed

lemma write_all_keeps:
  "write_all ws h ms = (r, h') \<Longrightarrow>
   \<forall>(m, p, v') \<in> set ws. ms ! m = a \<and> p = q \<longrightarrow> v' = v \<Longrightarrow>
   h ! a ! q = nat v \<Longrightarrow> h' ! a ! q = nat v"
proof (induction ws arbitrary: h)
  case Nil
  then show ?case by simp
next
  case (Cons w ws)
  obtain m p v' where w: "w = (m, p, v')" by (cases w)
  show ?case
  proof (cases "set_byte h ms m p v'")
    case (Inl e)
    with Cons.prems w show ?thesis by simp
  next
    case (Inr h1)
    with Cons.prems w have run: "write_all ws h1 ms = (r, h')" by simp
    have rest: "\<forall>(m, p, v') \<in> set ws. ms ! m = a \<and> p = q \<longrightarrow> v' = v"
      using Cons.prems(2) by simp
    have "h1 ! a ! q = nat v"
    proof (cases "ms ! m = a \<and> p = q")
      case True
      with Cons.prems(2) w have "v' = v" by simp
      with set_byte_same[OF Inr] True show ?thesis by simp
    next
      case False
      then have "a \<noteq> ms ! m \<or> q \<noteq> p" by auto
      from set_byte_other[OF Inr this] Cons.prems(3) show ?thesis by simp
    qed
    from Cons.IH[OF run rest this] show ?thesis .
  qed
qed

lemma write_all_final:
  "write_all ws h ms = (Inr u, h') \<Longrightarrow> (m, p, v) \<in> set ws \<Longrightarrow>
   \<forall>(m', p', v') \<in> set ws. ms ! m' = ms ! m \<and> p' = p \<longrightarrow> v' = v \<Longrightarrow>
   h' ! (ms ! m) ! p = nat v"
proof (induction ws arbitrary: h)
  case Nil
  then show ?case by simp
next
  case (Cons w ws)
  obtain m1 p1 v1 where w: "w = (m1, p1, v1)" by (cases w)
  show ?case
  proof (cases "set_byte h ms m1 p1 v1")
    case (Inl e)
    with Cons.prems w show ?thesis by simp
  next
    case (Inr h1)
    with Cons.prems w have run: "write_all ws h1 ms = (Inr u, h')" by simp
    have rest: "\<forall>(m', p', v') \<in> set ws. ms ! m' = ms ! m \<and> p' = p \<longrightarrow> v' = v"
      using Cons.prems(3) by simp
    show ?thesis
    proof (cases "(m, p, v) \<in> set ws")
      case True
      from Cons.IH[OF run True rest] show ?thesis .
    next
      case False
      with Cons.prems(2) w have eq: "m1 = m" "p1 = p" "v1 = v" by auto
      from set_byte_same[OF Inr] eq have "h1 ! (ms ! m) ! p = nat v" by simp
      from write_all_keeps[OF run rest this] show ?thesis .
    qed
  qed
qed

lemma write_all_succeeds:
  "\<forall>(m, p, v) \<in> set ws. m < length ms \<and> ms ! m < length h \<and> p < length (h ! (ms ! m))
      \<and> 0 \<le> v \<and> v \<le> 255 \<Longrightarrow>
   \<exists>h'. write_all ws h ms = (Inr (), h')"
proof (induction ws arbitrary: h)
  case Nil
  then show ?case by simp
next
  case (Cons w ws)
  obtain m p v where w: "w = (m, p, v)" by (cases w)
  from Cons.prems w have ok: "m < length ms" "ms ! m < length h" "p < length (h ! (ms ! m))"
    "0 \<le> v" "v \<le> 255" by auto
  then obtain h1 where h1: "set_byte h ms m p v = Inr h1" by (simp add: set_byte_def)
  have "\<forall>(m, p, v) \<in> set ws. m < length ms \<and> ms ! m < length h1 \<and> p < length (h1 ! (ms ! m))
      \<and> 0 \<le> v \<and> v \<le> 255"
    using Cons.prems set_byte_length[OF h1] set_byte_length_nth[OF h1] by auto
  from Cons.IH[OF this] obtain h' where "write_all ws h1 ms = (Inr (), h')" by blast
  with h1 w show ?case by simp
qed

lemma assign_loop_writes:
  "assign_loop cs i t mode lo av r h ms = write_all (cc_writes cs i (assign_cc_value t mode lo av r)) h ms"
  by (induction cs arbitrary: i h) (auto split: sum.splits)

lemma legacy_assign_loop_writes:
  "legacy_assign_loop cs i t mode h ms = write_all (cc_writes cs i (legacy_cc_value t mode)) h ms"
  by (induction cs arbitrary: i h) (auto split: sum.splits)

lemma channel_loop_writes:
  "channel_loop cs z h ms = write_all (channel_writes cs z) h ms"
  by (induction cs arbitrary: h) (auto split: sum.splits)

lemma cc_writes_set:
  "set (cc_writes cs i f) = {(msg_index (cs ! j), cc_pos (cs ! j), f (i + j)) | j. j < length cs}"
proof (induction cs arbitrary: i)
  case Nil
  then show ?case by simp
next
  case (Cons c cs)
  have "{(msg_index ((c # cs) ! j), cc_pos ((c # cs) ! j), f (i + j)) | j. j < length (c # cs)}
        = insert (msg_index c, cc_pos c, f i)
            {(msg_index (cs ! j), cc_pos (cs ! j), f (Suc i + j)) | j. j < length cs}"
    (is "?L = ?R")
  proof (rule set_eqI)
    fix x show "x \<in> ?L \<longleftrightarrow> x \<in> ?R"
    proof
      assume "x \<in> ?L"
      then obtain j where j: "j < length (c # cs)"
        "x = (msg_index ((c # cs) ! j), cc_pos ((c # cs) ! j), f (i + j))" by blast
      then show "x \<in> ?R" by (cases j) auto
    next
      assume "x \<in> ?R"
      then consider "x = (msg_index c, cc_pos c, f i)"
        | j where "j < length cs" "x = (msg_index (cs ! j), cc_pos (cs ! j), f (Suc i + j))"
        by blast
      then show "x \<in> ?L"
      proof cases
        case 1
        then have "0 < length (c # cs) \<and> x = (msg_index ((c # cs) ! 0), cc_pos ((c # cs) ! 0), f (i + 0))"
          by simp
        then show ?thesis by blast
      next
        case (2 j)
        then have "Suc j < length (c # cs) \<and>
          x = (msg_index ((c # cs) ! Suc j), cc_pos ((c # cs) ! Suc j), f (i + Suc j))" by simp
        then show ?thesis by blast
      qed
    qed
  qed
  with Cons.IH[of "Suc i"] show ?case by simp
qed

section \<open>The control table and the embedded messages\<close>

lemma controls_bounds:
  "\<forall>c \<in> set CONTROLS. msg_index c < 2 \<and> cc_pos c < 342 \<and> ch_pos c < 342
      \<and> color_pos c < 342 \<and> nat (flag_pos c) < 342"
  by (simp add: CONTROLS_def)

lemma embedded_lengths: "length EMBEDDED_MSG_0 = 342" "length EMBEDDED_MSG_1 = 342"
  by (simp_all add: EMBEDDED_MSG_0_def EMBEDDED_MSG_1_def)

lemma fits_by_length:
  assumes "distinct ms" "length ms = 2" "\<forall>a \<in> set ms. a < length h \<and> length (h ! a) = 342"
  shows "fits h ms"
proof -
  have "msg_index c < length ms \<and>
        cc_pos c < length (h ! (ms ! msg_index c)) \<and>
        ch_pos c < length (h ! (ms ! msg_index c)) \<and>
        color_pos c < length (h ! (ms ! msg_index c)) \<and>
        (flag_pos c \<ge> 0 \<longrightarrow> nat (flag_pos c) < length (h ! (ms ! msg_index c)))"
    if c: "c \<in> set CONTROLS" for c
  proof -
    from controls_bounds c have b: "msg_index c < 2" "cc_pos c < 342" "ch_pos c < 342"
      "color_pos c < 342" "nat (flag_pos c) < 342" by blast+
    from b(1) assms(2) have "ms ! msg_index c \<in> set ms" by simp
    with assms(3) have "length (h ! (ms ! msg_index c)) = 342" by blast
    with b assms(2) show ?thesis by simp
  qed
  with assms(1,3) show ?thesis unfolding fits_def by blast
qed

lemma fits_embedded: "fits EMBEDDED_MSGS [0, 1]"
  by (rule fits_by_length) (simp_all add: EMBEDDED_MSGS_def embedded_lengths)

lemma controls_successively: "successively before CONTROLS"
  by (simp add: CONTROLS_def before_def)

lemma controls_layout:
  "\<forall>c \<in> set CONTROLS. color_pos c + 5 = cc_pos c \<and> ch_pos c + 3 = cc_pos c
      \<and> flag_pos c = int (cc_pos c) - 2 \<and> 37 \<le> cc_pos c \<and> cc_pos c < 341 \<and> msg_index c < 2"
  by (simp add: CONTROLS_def)

lemma controls_sorted: "sorted_wrt before CONTROLS"
proof -
  have "transp before" by (auto simp: transp_def before_def)
  from successively_conv_sorted_wrt[OF this] controls_successively show ?thesis by blast
qed

lemma controls_nth_before:
  "i < j \<Longrightarrow> j < length CONTROLS \<Longrightarrow> before (CONTROLS ! i) (CONTROLS ! j)"
  using controls_sorted by (simp add: sorted_wrt_iff_nth_less)

lemma cc_location_inj:
  assumes "j < length CONTROLS" "i < length CONTROLS"
    "msg_index (CONTROLS ! j) = msg_index (CONTROLS ! i)"
    "cc_pos (CONTROLS ! j) = cc_pos (CONTROLS ! i)"
  shows "j = i"
proof (rule ccontr)
  assume "j \<noteq> i"
  then consider "j < i" | "i < j" by linarith
  then show False
  proof cases
    case 1
    from controls_nth_before[OF 1 assms(2)] assms(3,4) show False by (simp add: before_def)
  next
    case 2
    from controls_nth_before[OF 2 assms(1)] assms(3,4) show False by (simp add: before_def)
  qed
qed

lemma controls_apart:
  assumes "c \<in> set CONTROLS" "c' \<in> set CONTROLS" "msg_index c = msg_index c'"
  shows "c = c' \<or> cc_pos c + 11 \<le> cc_pos c' \<or> cc_pos c' + 11 \<le> cc_pos c"
proof -
  from assms(1,2) obtain i j where i: "i < length CONTROLS" "c = CONTROLS ! i"
    and j: "j < length CONTROLS" "c' = CONTROLS ! j" by (auto simp: in_set_conv_nth)
  consider "i = j" | "i < j" | "j < i" by linarith
  then show ?thesis
  proof cases
    case 1
    with i j show ?thesis by simp
  next
    case 2
    from controls_nth_before[OF 2 j(1)] i j assms(3) show ?thesis by (simp add: before_def)
  next
    case 3
    from controls_nth_before[OF 3 i(1)] i j assms(3) show ?thesis by (simp add: before_def)
  qed
qed

lemma length_CONTROLS: "length CONTROLS = 48"
  by (simp add: CONTROLS_def)

lemma fits_control:
  assumes "fits h ms" "c \<in> set CONTROLS"
  shows "msg_index c < length ms" "ms ! msg_index c < length h"
    "cc_pos c < length (h ! (ms ! msg_index c))"
    "ch_pos c < length (h ! (ms ! msg_index c))"
    "color_pos c < length (h ! (ms ! msg_index c))"
    "flag_pos c \<ge> 0 \<Longrightarrow> nat (flag_pos c) < length (h ! (ms ! msg_index c))"
proof -
  from assms show m: "msg_index c < length ms" by (simp add: fits_def)
  from assms(1) have "\<forall>a \<in> set ms. a < length h" by (simp add: fits_def)
  with m show "ms ! msg_index c < length h" by simp
  from assms show "cc_pos c < length (h ! (ms ! msg_index c))" by (simp add: fits_def)
  from assms show "ch_pos c < length (h ! (ms ! msg_index c))" by (simp add: fits_def)
  from assms show "color_pos c < length (h ! (ms ! msg_index c))" by (simp add: fits_def)
  from assms show "flag_pos c \<ge> 0 \<Longrightarrow> nat (flag_pos c) < length (h ! (ms ! msg_index c))"
    by (simp add: fits_def)
qed

lemma same_message:
  assumes "fits h ms" "c \<in> set CONTROLS" "c' \<in> set CONTROLS"
    "ms ! msg_index c = ms ! msg_index c'"
  shows "msg_index c = msg_index c'"
proof -
  from assms(1) have "distinct ms" by (simp add: fits_def)
  with fits_control(1)[OF assms(1,2)] fits_control(1)[OF assms(1,3)] assms(4)
  show ?thesis by (simp add: nth_eq_iff_index_eq)
qed

lemma cc_writes_run:
  assumes fits: "fits h ms" and vals: "\<forall>i<length CONTROLS. 0 \<le> f i \<and> f i \<le> 255"
  shows "\<exists>h'. write_all (cc_writes CONTROLS 0 f) h ms = (Inr (), h') \<and>
          (\<forall>i<length CONTROLS.
             byte_at h' ms (msg_index (CONTROLS ! i)) (cc_pos (CONTROLS ! i)) = nat (f i))"
proof -
  have "\<forall>(m, p, v) \<in> set (cc_writes CONTROLS 0 f).
          m < length ms \<and> ms ! m < length h \<and> p < length (h ! (ms ! m)) \<and> 0 \<le> v \<and> v \<le> 255"
    using fits_control(1-3)[OF fits] vals by (auto simp: cc_writes_set)
  from write_all_succeeds[OF this] obtain h'
    where run: "write_all (cc_writes CONTROLS 0 f) h ms = (Inr (), h')" by blast
  have "byte_at h' ms (msg_index (CONTROLS ! i)) (cc_pos (CONTROLS ! i)) = nat (f i)"
    if i: "i < length CONTROLS" for i
  proof -
    have mem: "(msg_index (CONTROLS ! i), cc_pos (CONTROLS ! i), f i)
                 \<in> set (cc_writes CONTROLS 0 f)"
      using i by (auto simp: cc_writes_set)
    have "v' = f i"
      if w: "(m', p', v') \<in> set (cc_writes CONTROLS 0 f)"
        and a: "ms ! m' = ms ! msg_index (CONTROLS ! i)" and p: "p' = cc_pos (CONTROLS ! i)"
      for m' p' v'
    proof -
      from w obtain j where j: "j < length CONTROLS" and m': "m' = msg_index (CONTROLS ! j)"
        and p': "p' = cc_pos (CONTROLS ! j)" and v': "v' = f j"
        by (auto simp: cc_writes_set)
      from same_message[OF fits _ _ a[unfolded m']] i j
      have "msg_index (CONTROLS ! j) = msg_index (CONTROLS ! i)" by simp
      from cc_location_inj[OF j i this] p p' have "j = i" by simp
      with v' show ?thesis by simp
    qed
    then have "\<forall>(m', p', v') \<in> set (cc_writes CONTROLS 0 f).
            ms ! m' = ms ! msg_index (CONTROLS ! i) \<and> p' = cc_pos (CONTROLS ! i) \<longrightarrow> v' = f i"
      by blast
    from write_all_final[OF run mem this] show ?thesis by (simp add: byte_at_def)
  qed
  with run show ?thesis by blast
qed

lemma assign_cc_value_formula:
  "assign_cc_value t cc_mode (max min_cc SAFE_CC_MIN) (SAFE_CC_MAX - max min_cc SAFE_CC_MIN + 1)
     cc_reverse i =
   (let lo = max min_cc SAFE_CC_MIN; hi = SAFE_CC_MAX;
        k = (if cc_mode = RESTART_PER_TEMPLATE then int i else t * 48 + int i)
    in if k \<ge> hi - lo + 1 then 0
       else if cc_reverse then (if hi - k < lo then 0 else hi - k)
       else (if lo + k > hi then 0 else lo + k))"
  by (auto simp: assign_cc_value_def length_CONTROLS SAFE_CC_MIN_def SAFE_CC_MAX_def Let_def)

lemma assign_cc_value_range:
  assumes "0 \<le> t"
  shows "assign_cc_value t cc_mode (max min_cc SAFE_CC_MIN)
           (SAFE_CC_MAX - max min_cc SAFE_CC_MIN + 1) cc_reverse i = 0
       \<or> (max min_cc SAFE_CC_MIN \<le> assign_cc_value t cc_mode (max min_cc SAFE_CC_MIN)
           (SAFE_CC_MAX - max min_cc SAFE_CC_MIN + 1) cc_reverse i
         \<and> assign_cc_value t cc_mode (max min_cc SAFE_CC_MIN)
           (SAFE_CC_MAX - max min_cc SAFE_CC_MIN + 1) cc_reverse i \<le> SAFE_CC_MAX)"
  using assms
  by (auto simp: assign_cc_value_def length_CONTROLS SAFE_CC_MIN_def SAFE_CC_MAX_def Let_def)

lemma assign_cc_value_byte:
  assumes "0 \<le> t"
  shows "0 \<le> assign_cc_value t cc_mode (max min_cc SAFE_CC_MIN)
           (SAFE_CC_MAX - max min_cc SAFE_CC_MIN + 1) cc_reverse i
       \<and> assign_cc_value t cc_mode (max min_cc SAFE_CC_MIN)
           (SAFE_CC_MAX - max min_cc SAFE_CC_MIN + 1) cc_reverse i \<le> 255"
  using assms
  by (auto simp: assign_cc_value_def length_CONTROLS SAFE_CC_MIN_def SAFE_CC_MAX_def Let_def)

lemma assign_run:
  assumes "fits h ms" "0 \<le> t"
  shows "\<exists>h'. assign_continuous_controllers h ms t cc_mode min_cc cc_reverse = (Inr (), h') \<and>
          (\<forall>i<length CONTROLS.
             byte_at h' ms (msg_index (CONTROLS ! i)) (cc_pos (CONTROLS ! i))
               = nat (assign_cc_value t cc_mode (max min_cc SAFE_CC_MIN)
                        (SAFE_CC_MAX - max min_cc SAFE_CC_MIN + 1) cc_reverse i))"
proof -
  have "\<forall>i<length CONTROLS.
          0 \<le> assign_cc_value t cc_mode (max min_cc SAFE_CC_MIN)
                 (SAFE_CC_MAX - max min_cc SAFE_CC_MIN + 1) cc_reverse i
        \<and> assign_cc_value t cc_mode (max min_cc SAFE_CC_MIN)
                 (SAFE_CC_MAX - max min_cc SAFE_CC_MIN + 1) cc_reverse i \<le> 255"
    using assign_cc_value_byte[OF assms(2)] by simp
  from cc_writes_run[OF assms(1) this] show ?thesis
    by (simp add: assign_continuous_controllers_def Let_def assign_loop_writes)
qed

section \<open>CC assignment\<close>

text \<open>
  C1 (amended).  The control table has 48 entries, so the control index runs over [0,48)
  and the logical offset in continuous mode is \<open>t * 48 + i\<close>.  For every control index
  \<open>i\<close>, zero-based template index \<open>t\<close>, CC mode, reverse flag and requested minimum CC, the
  call succeeds and the CC byte written for control \<open>i\<close> is, with
  \<open>lo = max min_cc SAFE_CC_MIN\<close> and \<open>hi = SAFE_CC_MAX\<close>: the logical offset \<open>k\<close> is \<open>i\<close> in
  restart mode and \<open>t * 48 + i\<close> in continuous mode; if \<open>k \<ge> hi - lo + 1\<close> the byte is 0;
  otherwise it is \<open>lo + k\<close> when reverse is false (0 if that exceeds \<open>hi\<close>) and \<open>hi - k\<close>
  when reverse is true (0 if that falls below \<open>lo\<close>).
\<close>

theorem cc_assignment_algorithm:
  assumes "fits h messages" and "0 \<le> t" and "i < length CONTROLS"
  shows "\<exists>h'. assign_continuous_controllers h messages t cc_mode min_cc cc_reverse = (Inr (), h')
           \<and> int (byte_at h' messages (msg_index (CONTROLS ! i)) (cc_pos (CONTROLS ! i))) =
             (let lo = max min_cc SAFE_CC_MIN; hi = SAFE_CC_MAX;
                  k = (if cc_mode = RESTART_PER_TEMPLATE then int i else t * 48 + int i)
              in if k \<ge> hi - lo + 1 then 0
                 else if cc_reverse then (if hi - k < lo then 0 else hi - k)
                 else (if lo + k > hi then 0 else lo + k))"
proof -
  from assign_run[OF assms(1,2)] obtain h' where
    run: "assign_continuous_controllers h messages t cc_mode min_cc cc_reverse = (Inr (), h')"
    and b: "byte_at h' messages (msg_index (CONTROLS ! i)) (cc_pos (CONTROLS ! i))
               = nat (assign_cc_value t cc_mode (max min_cc SAFE_CC_MIN)
                        (SAFE_CC_MAX - max min_cc SAFE_CC_MIN + 1) cc_reverse i)"
    using assms(3) by blast
  have "0 \<le> assign_cc_value t cc_mode (max min_cc SAFE_CC_MIN)
                        (SAFE_CC_MAX - max min_cc SAFE_CC_MIN + 1) cc_reverse i"
    using assign_cc_value_byte[OF assms(2)] by simp
  with b have "int (byte_at h' messages (msg_index (CONTROLS ! i)) (cc_pos (CONTROLS ! i)))
     = assign_cc_value t cc_mode (max min_cc SAFE_CC_MIN)
                        (SAFE_CC_MAX - max min_cc SAFE_CC_MIN + 1) cc_reverse i" by simp
  with run show ?thesis by (simp only: assign_cc_value_formula) blast
qed

theorem cc_assignment_algorithm_witness:
  "fits EMBEDDED_MSGS [0, 1] \<and> (0::int) \<le> 2 \<and> (5::nat) < length CONTROLS \<and>
   (\<exists>h'. assign_continuous_controllers EMBEDDED_MSGS [0, 1] 2 CONTINUOUS 1 False = (Inr (), h')
      \<and> int (byte_at h' [0, 1] (msg_index (CONTROLS ! 5)) (cc_pos (CONTROLS ! 5))) = 102)"
proof -
  have i: "(5::nat) < length CONTROLS" by (simp add: length_CONTROLS)
  have t: "(0::int) \<le> 2" by simp
  from cc_assignment_algorithm[OF fits_embedded t i, of CONTINUOUS 1 False] fits_embedded i
  show ?thesis by (simp add: SAFE_CC_MIN_def SAFE_CC_MAX_def)
qed

text \<open>
  C1 as stated, with \<open>k = t * 47 + i\<close>, fails: for template index 1 in continuous mode,
  forward, minimum 1, the claim gives control 0 the offset 47 and the byte 48; the code
  writes 49.
\<close>

theorem cc_offset_47_counterexample:
  "fst (assign_continuous_controllers EMBEDDED_MSGS [0, 1] 1 CONTINUOUS 1 False) = Inr () \<and>
   int (byte_at (snd (assign_continuous_controllers EMBEDDED_MSGS [0, 1] 1 CONTINUOUS 1 False))
          [0, 1] (msg_index (CONTROLS ! 0)) (cc_pos (CONTROLS ! 0))) = 49 \<and>
   (1 * 47 + 0 :: int) < SAFE_CC_MAX - max 1 SAFE_CC_MIN + 1 \<and>
   max 1 SAFE_CC_MIN + (1 * 47 + 0) = (48 :: int)"
proof -
  have t: "(0::int) \<le> 1" by simp
  from assign_run[OF fits_embedded t, of CONTINUOUS 1 False] obtain h' where
    run: "assign_continuous_controllers EMBEDDED_MSGS [0, 1] 1 CONTINUOUS 1 False = (Inr (), h')"
    and b: "\<forall>i<length CONTROLS.
             byte_at h' [0, 1] (msg_index (CONTROLS ! i)) (cc_pos (CONTROLS ! i))
               = nat (assign_cc_value 1 CONTINUOUS (max 1 SAFE_CC_MIN)
                        (SAFE_CC_MAX - max 1 SAFE_CC_MIN + 1) False i)"
    by blast
  from b have "byte_at h' [0, 1] (msg_index (CONTROLS ! 0)) (cc_pos (CONTROLS ! 0)) = 49"
    by (simp add: length_CONTROLS assign_cc_value_def SAFE_CC_MIN_def SAFE_CC_MAX_def)
  with run show ?thesis by (simp add: SAFE_CC_MIN_def SAFE_CC_MAX_def)
qed

text \<open>
  C3.  For every control index \<open>i\<close>, zero-based template index \<open>t\<close>, CC mode, reverse flag
  and requested minimum CC, the CC byte written is 0 or lies in \<open>[lo, hi]\<close>, where
  \<open>lo = max min_cc SAFE_CC_MIN\<close> and \<open>hi = SAFE_CC_MAX\<close>.
\<close>

theorem cc_range_safety:
  assumes "fits h messages" and "0 \<le> t" and "i < length CONTROLS"
  shows "\<exists>h'. assign_continuous_controllers h messages t cc_mode min_cc cc_reverse = (Inr (), h')
           \<and> (byte_at h' messages (msg_index (CONTROLS ! i)) (cc_pos (CONTROLS ! i)) = 0
              \<or> (max min_cc SAFE_CC_MIN
                    \<le> int (byte_at h' messages (msg_index (CONTROLS ! i)) (cc_pos (CONTROLS ! i)))
                 \<and> int (byte_at h' messages (msg_index (CONTROLS ! i)) (cc_pos (CONTROLS ! i)))
                    \<le> SAFE_CC_MAX))"
proof -
  let ?v = "assign_cc_value t cc_mode (max min_cc SAFE_CC_MIN)
              (SAFE_CC_MAX - max min_cc SAFE_CC_MIN + 1) cc_reverse i"
  from assign_run[OF assms(1,2)] obtain h' where
    run: "assign_continuous_controllers h messages t cc_mode min_cc cc_reverse = (Inr (), h')"
    and b: "byte_at h' messages (msg_index (CONTROLS ! i)) (cc_pos (CONTROLS ! i)) = nat ?v"
    using assms(3) by blast
  from assign_cc_value_range[OF assms(2), of cc_mode min_cc cc_reverse i]
  have "nat ?v = 0 \<or> (max min_cc SAFE_CC_MIN \<le> int (nat ?v) \<and> int (nat ?v) \<le> SAFE_CC_MAX)"
    by (auto simp: SAFE_CC_MIN_def)
  with run b show ?thesis by simp
qed

theorem cc_range_safety_witness:
  "fits EMBEDDED_MSGS [0, 1] \<and> (0::int) \<le> 2 \<and> (40::nat) < length CONTROLS \<and>
   (\<exists>h'. assign_continuous_controllers EMBEDDED_MSGS [0, 1] 2 CONTINUOUS 100 True = (Inr (), h')
      \<and> (byte_at h' [0, 1] (msg_index (CONTROLS ! 40)) (cc_pos (CONTROLS ! 40)) = 0
         \<or> (max 100 SAFE_CC_MIN
               \<le> int (byte_at h' [0, 1] (msg_index (CONTROLS ! 40)) (cc_pos (CONTROLS ! 40)))
            \<and> int (byte_at h' [0, 1] (msg_index (CONTROLS ! 40)) (cc_pos (CONTROLS ! 40)))
               \<le> SAFE_CC_MAX)))"
proof -
  have i: "(40::nat) < length CONTROLS" by (simp add: length_CONTROLS)
  have t: "(0::int) \<le> 2" by simp
  from cc_range_safety[OF fits_embedded t i, of CONTINUOUS 100 True] fits_embedded i
  show ?thesis by simp
qed
lemma offsets_inj:
  fixes t t2 :: int and i i2 :: nat
  assumes "i < 48" "i2 < 48" "t * 48 + int i = t2 * 48 + int i2"
  shows "t = t2 \<and> i = i2"
proof -
  have "t = t2"
  proof (rule ccontr)
    assume "t \<noteq> t2"
    then consider "t + 1 \<le> t2" | "t2 + 1 \<le> t" by linarith
    then show False
    proof cases
      case 1
      then have "(t + 1) * 48 \<le> t2 * 48" by simp
      with assms show False by (simp add: algebra_simps)
    next
      case 2
      then have "(t2 + 1) * 48 \<le> t * 48" by simp
      with assms show False by (simp add: algebra_simps)
    qed
  qed
  with assms(3) show ?thesis by simp
qed

lemma assign_cc_value_nonzero:
  assumes "assign_cc_value t cc_mode lo av cc_reverse i \<noteq> 0"
  shows "assign_cc_value t cc_mode lo av cc_reverse i =
           (if cc_reverse
            then SAFE_CC_MAX - (if cc_mode = RESTART_PER_TEMPLATE then int i
                                else t * int (length CONTROLS) + int i)
            else lo + (if cc_mode = RESTART_PER_TEMPLATE then int i
                       else t * int (length CONTROLS) + int i))"
proof -
  let ?k = "if cc_mode = RESTART_PER_TEMPLATE then int i else t * int (length CONTROLS) + int i"
  have eq: "assign_cc_value t cc_mode lo av cc_reverse i =
     (if ?k \<ge> av then 0
      else if cc_reverse then (if SAFE_CC_MAX - ?k < SAFE_CC_MIN then 0 else SAFE_CC_MAX - ?k)
      else (if lo + ?k > SAFE_CC_MAX then 0 else lo + ?k))"
    unfolding assign_cc_value_def Let_def ..
  show ?thesis
  proof (cases "?k \<ge> av")
    case True
    with eq assms show ?thesis by simp
  next
    case False
    show ?thesis
    proof (cases cc_reverse)
      case True
      with eq assms False show ?thesis by (cases "SAFE_CC_MAX - ?k < SAFE_CC_MIN") simp_all
    next
      case rev: False
      with eq assms False show ?thesis by (cases "lo + ?k > SAFE_CC_MAX") simp_all
    qed
  qed
qed

text \<open>
  C5.  In continuous mode, with one minimum CC and one direction, two distinct pairs
  \<open>(t, i)\<close> and \<open>(t', i')\<close> of template index and control index have distinct logical
  offsets, since the offsets of template \<open>t\<close> fill \<open>[t * N, t * N + N)\<close> and those of the
  next template start at \<open>t * N + N\<close>.  If both CC bytes are nonzero they are distinct, and
  a control whose offset has left the safe range gets byte 0.
\<close>

theorem continuous_no_collision:
  assumes "fits h messages" and "fits h2 messages2"
    and "0 \<le> t" and "0 \<le> t2"
    and "i < length CONTROLS" and "i2 < length CONTROLS"
    and "(t, i) \<noteq> (t2, i2)"
  shows "\<exists>h' h2'.
           assign_continuous_controllers h messages t CONTINUOUS min_cc cc_reverse = (Inr (), h')
         \<and> assign_continuous_controllers h2 messages2 t2 CONTINUOUS min_cc cc_reverse
             = (Inr (), h2')
         \<and> t * int (length CONTROLS) + int i \<noteq> t2 * int (length CONTROLS) + int i2
         \<and> (t + 1) * int (length CONTROLS) = t * int (length CONTROLS) + int (length CONTROLS)
         \<and> (byte_at h' messages (msg_index (CONTROLS ! i)) (cc_pos (CONTROLS ! i)) \<noteq> 0
            \<and> byte_at h2' messages2 (msg_index (CONTROLS ! i2)) (cc_pos (CONTROLS ! i2)) \<noteq> 0
            \<longrightarrow> byte_at h' messages (msg_index (CONTROLS ! i)) (cc_pos (CONTROLS ! i))
                 \<noteq> byte_at h2' messages2 (msg_index (CONTROLS ! i2)) (cc_pos (CONTROLS ! i2)))
         \<and> (t * int (length CONTROLS) + int i \<ge> SAFE_CC_MAX - max min_cc SAFE_CC_MIN + 1
            \<longrightarrow> byte_at h' messages (msg_index (CONTROLS ! i)) (cc_pos (CONTROLS ! i)) = 0)
         \<and> (t2 * int (length CONTROLS) + int i2 \<ge> SAFE_CC_MAX - max min_cc SAFE_CC_MIN + 1
            \<longrightarrow> byte_at h2' messages2 (msg_index (CONTROLS ! i2)) (cc_pos (CONTROLS ! i2)) = 0)"
proof -
  let ?lo = "max min_cc SAFE_CC_MIN"
  let ?av = "SAFE_CC_MAX - ?lo + 1"
  let ?v = "assign_cc_value t CONTINUOUS ?lo ?av cc_reverse i"
  let ?v2 = "assign_cc_value t2 CONTINUOUS ?lo ?av cc_reverse i2"
  from assign_run[OF assms(1,3)] assms(5) obtain h' where
    run: "assign_continuous_controllers h messages t CONTINUOUS min_cc cc_reverse = (Inr (), h')"
    and b: "byte_at h' messages (msg_index (CONTROLS ! i)) (cc_pos (CONTROLS ! i)) = nat ?v"
    by blast
  from assign_run[OF assms(2,4)] assms(6) obtain h2' where
    run2: "assign_continuous_controllers h2 messages2 t2 CONTINUOUS min_cc cc_reverse
             = (Inr (), h2')"
    and b2: "byte_at h2' messages2 (msg_index (CONTROLS ! i2)) (cc_pos (CONTROLS ! i2)) = nat ?v2"
    by blast
  have ne: "t * 48 + int i \<noteq> t2 * 48 + int i2"
    using offsets_inj[of i i2 t t2] assms(5-7) by (auto simp: length_CONTROLS)
  have pos: "0 \<le> ?v" "0 \<le> ?v2"
    using assign_cc_value_byte[OF assms(3)] assign_cc_value_byte[OF assms(4)] by simp_all
  have distinct_bytes: "?v \<noteq> 0 \<and> ?v2 \<noteq> 0 \<longrightarrow> ?v \<noteq> ?v2"
  proof (intro impI notI, elim conjE)
    assume nz: "?v \<noteq> 0" "?v2 \<noteq> 0" and eq: "?v = ?v2"
    from assign_cc_value_nonzero[OF nz(1)] assign_cc_value_nonzero[OF nz(2)] eq
    have "t * 48 + int i = t2 * 48 + int i2"
      by (cases cc_reverse) (simp_all add: length_CONTROLS)
    with ne show False by simp
  qed
  have off: "t * 48 + int i \<ge> ?av \<longrightarrow> ?v = 0" "t2 * 48 + int i2 \<ge> ?av \<longrightarrow> ?v2 = 0"
    by (simp_all add: assign_cc_value_def length_CONTROLS Let_def)
  have "nat ?v \<noteq> 0 \<and> nat ?v2 \<noteq> 0 \<longrightarrow> nat ?v \<noteq> nat ?v2"
  proof (intro impI notI, elim conjE)
    assume nz: "nat ?v \<noteq> 0" "nat ?v2 \<noteq> 0" and eq: "nat ?v = nat ?v2"
    from nz have "?v \<noteq> 0" "?v2 \<noteq> 0" by auto
    moreover from eq pos have "?v = ?v2" by (simp add: eq_nat_nat_iff)
    ultimately show False using distinct_bytes by blast
  qed
  with run run2 b b2 ne off show ?thesis
    by (simp add: length_CONTROLS algebra_simps)
qed

theorem continuous_no_collision_witness:
  "fits EMBEDDED_MSGS [0, 1] \<and> fits EMBEDDED_MSGS [0, 1] \<and> (0::int) \<le> 0 \<and> (0::int) \<le> 1
   \<and> (47::nat) < length CONTROLS \<and> (0::nat) < length CONTROLS
   \<and> ((0::int), (47::nat)) \<noteq> (1, 0)
   \<and> (\<exists>h' h2'.
         assign_continuous_controllers EMBEDDED_MSGS [0, 1] 0 CONTINUOUS 1 False = (Inr (), h')
       \<and> assign_continuous_controllers EMBEDDED_MSGS [0, 1] 1 CONTINUOUS 1 False = (Inr (), h2')
       \<and> (byte_at h' [0, 1] (msg_index (CONTROLS ! 47)) (cc_pos (CONTROLS ! 47)) \<noteq> 0
          \<and> byte_at h2' [0, 1] (msg_index (CONTROLS ! 0)) (cc_pos (CONTROLS ! 0)) \<noteq> 0
          \<longrightarrow> byte_at h' [0, 1] (msg_index (CONTROLS ! 47)) (cc_pos (CONTROLS ! 47))
               \<noteq> byte_at h2' [0, 1] (msg_index (CONTROLS ! 0)) (cc_pos (CONTROLS ! 0))))"
proof -
  have i: "(47::nat) < length CONTROLS" "(0::nat) < length CONTROLS"
    by (simp_all add: length_CONTROLS)
  have t: "(0::int) \<le> 0" "(0::int) \<le> 1" by simp_all
  have ne: "((0::int), (47::nat)) \<noteq> (1, 0)" by simp
  from continuous_no_collision[OF fits_embedded fits_embedded t i ne, of 1 False]
  obtain h' h2' where
    "assign_continuous_controllers EMBEDDED_MSGS [0, 1] 0 CONTINUOUS 1 False = (Inr (), h')"
    "assign_continuous_controllers EMBEDDED_MSGS [0, 1] 1 CONTINUOUS 1 False = (Inr (), h2')"
    "byte_at h' [0, 1] (msg_index (CONTROLS ! 47)) (cc_pos (CONTROLS ! 47)) \<noteq> 0
       \<and> byte_at h2' [0, 1] (msg_index (CONTROLS ! 0)) (cc_pos (CONTROLS ! 0)) \<noteq> 0
     \<longrightarrow> byte_at h' [0, 1] (msg_index (CONTROLS ! 47)) (cc_pos (CONTROLS ! 47))
          \<noteq> byte_at h2' [0, 1] (msg_index (CONTROLS ! 0)) (cc_pos (CONTROLS ! 0))"
    by blast
  with fits_embedded i show ?thesis by simp
qed

section \<open>The legacy generator against the library generator\<close>

lemma legacy_cc_value_byte:
  "0 \<le> legacy_cc_value t cc_mode i \<and> legacy_cc_value t cc_mode i \<le> 255"
proof -
  have "0 \<le> x mod 127 \<and> x mod 127 < 127" for x :: int by simp
  then show ?thesis
    by (simp add: legacy_cc_value_def MAX_CC_VALUE_def MIN_CC_VALUE_def Let_def
          add_nonneg_nonneg add_le_less_mono less_imp_le)
qed

lemma legacy_run:
  assumes "fits h ms"
  shows "\<exists>h'. legacy_assign_continuous_controllers h ms t cc_mode = (Inr (), h') \<and>
          (\<forall>i<length CONTROLS.
             byte_at h' ms (msg_index (CONTROLS ! i)) (cc_pos (CONTROLS ! i))
               = nat (legacy_cc_value t cc_mode i))"
proof -
  have "\<forall>i<length CONTROLS.
          0 \<le> legacy_cc_value t cc_mode i \<and> legacy_cc_value t cc_mode i \<le> 255"
    using legacy_cc_value_byte by simp
  from cc_writes_run[OF assms this] show ?thesis
    by (simp add: legacy_assign_continuous_controllers_def legacy_assign_loop_writes)
qed

text \<open>
  C10 (amended).  The control table has 48 entries.  For every zero-based template index
  \<open>t\<close> and control index \<open>i\<close> in [0,48), with \<open>k = i\<close> in restart mode and
  \<open>k = t * 48 + i\<close> in continuous mode: both generators succeed; if \<open>k < 126\<close> the legacy
  generator and the library generator (forward, default minimum CC) write the same CC byte
  \<open>k + 1\<close>; if \<open>k \<ge> 126\<close> the legacy generator writes \<open>(k mod 127) + 1\<close>, the library
  generator writes 0, and the two bytes differ.
\<close>

theorem legacy_library_cc_agreement:
  assumes "fits h messages" and "0 \<le> t" and "i < length CONTROLS"
  shows "\<exists>h_lib h_leg.
           assign_continuous_controllers h messages t cc_mode DEFAULT_MIN_CC_VALUE False
             = (Inr (), h_lib)
         \<and> legacy_assign_continuous_controllers h messages t cc_mode = (Inr (), h_leg)
         \<and> (let k = (if cc_mode = RESTART_PER_TEMPLATE then int i else t * 48 + int i);
                 lib = int (byte_at h_lib messages (msg_index (CONTROLS ! i))
                              (cc_pos (CONTROLS ! i)));
                 leg = int (byte_at h_leg messages (msg_index (CONTROLS ! i))
                              (cc_pos (CONTROLS ! i)))
             in (k < 126 \<longrightarrow> lib = k + 1 \<and> leg = k + 1)
              \<and> (k \<ge> 126 \<longrightarrow> leg = k mod 127 + 1 \<and> lib = 0 \<and> leg \<noteq> lib))"
proof -
  let ?v = "assign_cc_value t cc_mode (max DEFAULT_MIN_CC_VALUE SAFE_CC_MIN)
              (SAFE_CC_MAX - max DEFAULT_MIN_CC_VALUE SAFE_CC_MIN + 1) False i"
  let ?w = "legacy_cc_value t cc_mode i"
  let ?k = "if cc_mode = RESTART_PER_TEMPLATE then int i else t * 48 + int i"
  from assign_run[OF assms(1,2)] assms(3) obtain h_lib where
    run: "assign_continuous_controllers h messages t cc_mode DEFAULT_MIN_CC_VALUE False
            = (Inr (), h_lib)"
    and b: "byte_at h_lib messages (msg_index (CONTROLS ! i)) (cc_pos (CONTROLS ! i)) = nat ?v"
    by blast
  from legacy_run[OF assms(1)] assms(3) obtain h_leg where
    run2: "legacy_assign_continuous_controllers h messages t cc_mode = (Inr (), h_leg)"
    and b2: "byte_at h_leg messages (msg_index (CONTROLS ! i)) (cc_pos (CONTROLS ! i)) = nat ?w"
    by blast
  have k0: "0 \<le> ?k" using assms(2) by simp
  have v: "?v = (if ?k \<ge> 126 then 0 else ?k + 1)"
    by (simp add: assign_cc_value_def length_CONTROLS SAFE_CC_MIN_def SAFE_CC_MAX_def
          DEFAULT_MIN_CC_VALUE_def Let_def)
  have w: "?w = ?k mod 127 + 1"
    by (simp add: legacy_cc_value_def length_CONTROLS MAX_CC_VALUE_def MIN_CC_VALUE_def Let_def)
  have m: "0 \<le> ?k mod 127" by simp
  have small: "?k < 126 \<Longrightarrow> ?k mod 127 = ?k" using k0 by simp
  from b v k0 have lib: "int (byte_at h_lib messages (msg_index (CONTROLS ! i))
      (cc_pos (CONTROLS ! i))) = (if ?k \<ge> 126 then 0 else ?k + 1)" by simp
  from b2 w m have leg: "int (byte_at h_leg messages (msg_index (CONTROLS ! i))
      (cc_pos (CONTROLS ! i))) = ?k mod 127 + 1" by simp
  have "(?k < 126 \<longrightarrow> (if ?k \<ge> 126 then 0 else ?k + 1) = ?k + 1 \<and> ?k mod 127 + 1 = ?k + 1)
      \<and> (?k \<ge> 126 \<longrightarrow> (if ?k \<ge> 126 then 0 else ?k + 1) = 0
            \<and> ?k mod 127 + 1 \<noteq> (if ?k \<ge> 126 then 0 else ?k + 1))"
    using small m by auto
  with run run2 lib leg show ?thesis unfolding Let_def by auto
qed

theorem legacy_library_cc_agreement_witness:
  "fits EMBEDDED_MSGS [0, 1] \<and> (0::int) \<le> 2 \<and> (30::nat) < length CONTROLS \<and>
   (\<exists>h_lib h_leg.
      assign_continuous_controllers EMBEDDED_MSGS [0, 1] 2 CONTINUOUS DEFAULT_MIN_CC_VALUE False
        = (Inr (), h_lib)
    \<and> legacy_assign_continuous_controllers EMBEDDED_MSGS [0, 1] 2 CONTINUOUS = (Inr (), h_leg)
    \<and> int (byte_at h_leg [0, 1] (msg_index (CONTROLS ! 30)) (cc_pos (CONTROLS ! 30))) = 127
    \<and> int (byte_at h_lib [0, 1] (msg_index (CONTROLS ! 30)) (cc_pos (CONTROLS ! 30))) = 0)"
proof -
  have i: "(30::nat) < length CONTROLS" by (simp add: length_CONTROLS)
  have t: "(0::int) \<le> 2" by simp
  from legacy_library_cc_agreement[OF fits_embedded t i, of CONTINUOUS] fits_embedded i
  show ?thesis by (auto simp: Let_def)
qed

text \<open>
  C10 as stated, with \<open>k = t * 47 + i\<close>, fails on the legacy generator: for template
  index 1 in continuous mode the claim gives control 0 the offset 47 (below 126) and the
  byte 48; the legacy generator writes 49.
\<close>

theorem legacy_offset_47_counterexample:
  "fst (legacy_assign_continuous_controllers EMBEDDED_MSGS [0, 1] 1 CONTINUOUS) = Inr () \<and>
   int (byte_at (snd (legacy_assign_continuous_controllers EMBEDDED_MSGS [0, 1] 1 CONTINUOUS))
          [0, 1] (msg_index (CONTROLS ! 0)) (cc_pos (CONTROLS ! 0))) = 49 \<and>
   (1 * 47 + 0 :: int) < 126 \<and> (1 * 47 + 0) + 1 = (48 :: int)"
proof -
  from legacy_run[OF fits_embedded, of 1 CONTINUOUS] obtain h' where
    run: "legacy_assign_continuous_controllers EMBEDDED_MSGS [0, 1] 1 CONTINUOUS = (Inr (), h')"
    and b: "\<forall>i<length CONTROLS.
             byte_at h' [0, 1] (msg_index (CONTROLS ! i)) (cc_pos (CONTROLS ! i))
               = nat (legacy_cc_value 1 CONTINUOUS i)"
    by blast
  from b have "byte_at h' [0, 1] (msg_index (CONTROLS ! 0)) (cc_pos (CONTROLS ! 0)) = 49"
    by (simp add: length_CONTROLS legacy_cc_value_def MAX_CC_VALUE_def MIN_CC_VALUE_def)
  with run show ?thesis by simp
qed

section \<open>Generating a template\<close>

lemma channel_writes_set:
  "set (channel_writes cs z) =
     (\<lambda>c. (msg_index c, ch_pos c, z)) ` set cs
     \<union> (\<lambda>c. (msg_index c, nat (flag_pos c), 0)) ` {c \<in> set cs. flag_pos c \<ge> 0}"
  by (induction cs) auto

lemma cc_writes_patched:
  assumes "(m, p, v) \<in> set (cc_writes CONTROLS i0 f)"
  shows "m < 2 \<and> patched m p"
proof -
  from assms obtain j where j: "j < length CONTROLS" "m = msg_index (CONTROLS ! j)"
    "p = cc_pos (CONTROLS ! j)" by (auto simp: cc_writes_set)
  then have c: "CONTROLS ! j \<in> set CONTROLS" by simp
  with controls_bounds j have "m < 2" by blast
  moreover from c j have "patched m p" unfolding patched_def by blast
  ultimately show ?thesis by simp
qed

lemma channel_writes_patched:
  assumes "(m, p, v) \<in> set (channel_writes CONTROLS z)"
  shows "m < 2 \<and> patched m p"
proof -
  from assms obtain c where c: "c \<in> set CONTROLS" "m = msg_index c"
    "p = ch_pos c \<or> (flag_pos c \<ge> 0 \<and> p = nat (flag_pos c))"
    by (auto simp: channel_writes_set)
  with controls_bounds have "m < 2" by blast
  moreover from c have "patched m p" unfolding patched_def by blast
  ultimately show ?thesis by simp
qed

lemma write_all_fits:
  assumes "write_all ws h ms = (r, h')" "fits h ms"
  shows "fits h' ms"
  using assms(2) write_all_length[OF assms(1)] unfolding fits_def by simp

lemma write_all_other_addr:
  assumes run: "write_all ws h ms = (r, h')"
    and ws: "\<forall>(m, p, v) \<in> set ws. m < length ms"
    and a: "a \<notin> set ms"
  shows "h' ! a = h ! a"
proof (rule nth_equalityI)
  show "length (h' ! a) = length (h ! a)" using write_all_length[OF run] by simp
next
  fix q assume "q < length (h' ! a)"
  have "\<forall>(m, p, v) \<in> set ws. \<not> (ms ! m = a \<and> p = q)"
    using ws a by (auto dest: nth_mem)
  from write_all_frame[OF run this] show "h' ! a ! q = h ! a ! q" .
qed

lemma write_all_unpatched:
  assumes run: "write_all ws h ms = (r, h')"
    and ws: "\<forall>(m', p', v') \<in> set ws. m' < length ms \<and> patched m' p'"
    and d: "distinct ms" and m: "m < length ms" and np: "\<not> patched m p"
  shows "byte_at h' ms m p = byte_at h ms m p"
proof -
  have "\<not> (ms ! m' = ms ! m \<and> p' = p)" if w: "(m', p', v') \<in> set ws" for m' p' v'
  proof
    assume e: "ms ! m' = ms ! m \<and> p' = p"
    from ws w have "m' < length ms" "patched m' p'" by auto
    with d m e have "m' = m" by (simp add: nth_eq_iff_index_eq)
    with \<open>patched m' p'\<close> np e show False by simp
  qed
  then have "\<forall>(m', p', v') \<in> set ws. \<not> (ms ! m' = ms ! m \<and> p' = p)" by blast
  from write_all_frame[OF run this] show ?thesis by (simp add: byte_at_def)
qed

lemma patched_range: "patched m p \<Longrightarrow> m < 2 \<and> 34 \<le> p \<and> p < 341"
  using controls_layout unfolding patched_def by fastforce

lemma color_not_patched:
  assumes "c \<in> set CONTROLS"
  shows "\<not> patched (msg_index c) (color_pos c)"
proof
  assume "patched (msg_index c) (color_pos c)"
  then obtain c' where c': "c' \<in> set CONTROLS" "msg_index c' = msg_index c"
    "color_pos c = cc_pos c' \<or> color_pos c = ch_pos c'
       \<or> (flag_pos c' \<ge> 0 \<and> color_pos c = nat (flag_pos c'))"
    unfolding patched_def by blast
  from controls_layout assms have l: "color_pos c + 5 = cc_pos c" by blast
  from controls_layout c'(1) have l': "ch_pos c' + 3 = cc_pos c'"
    "flag_pos c' = int (cc_pos c') - 2" "37 \<le> cc_pos c'" by blast+
  from controls_apart[OF assms c'(1)] c'(2)
  consider "c = c'" | "cc_pos c + 11 \<le> cc_pos c'" | "cc_pos c' + 11 \<le> cc_pos c" by auto
  then show False using l l' c'(3) by cases auto
qed

lemma channel_run:
  assumes fits: "fits h ms" and z: "0 \<le> z" "z \<le> 255"
  shows "\<exists>h'. channel_loop CONTROLS z h ms = (Inr (), h') \<and>
          (\<forall>c \<in> set CONTROLS.
             byte_at h' ms (msg_index c) (ch_pos c) = nat z \<and>
             (flag_pos c \<ge> 0 \<longrightarrow> byte_at h' ms (msg_index c) (nat (flag_pos c)) = 0))"
proof -
  let ?ws = "channel_writes CONTROLS z"
  have "\<forall>(m, p, v) \<in> set ?ws.
          m < length ms \<and> ms ! m < length h \<and> p < length (h ! (ms ! m)) \<and> 0 \<le> v \<and> v \<le> 255"
    using fits_control(1,2,4,6)[OF fits] z by (auto simp: channel_writes_set)
  from write_all_succeeds[OF this] obtain h' where run: "write_all ?ws h ms = (Inr (), h')"
    by blast
  have "byte_at h' ms (msg_index c) (ch_pos c) = nat z \<and>
        (flag_pos c \<ge> 0 \<longrightarrow> byte_at h' ms (msg_index c) (nat (flag_pos c)) = 0)"
    if c: "c \<in> set CONTROLS" for c
  proof -
    from controls_layout c have lc: "ch_pos c + 3 = cc_pos c" "flag_pos c = int (cc_pos c) - 2"
      "37 \<le> cc_pos c" by blast+
    have apart: "c = c' \<or> cc_pos c + 11 \<le> cc_pos c' \<or> cc_pos c' + 11 \<le> cc_pos c"
      and lay: "ch_pos c' + 3 = cc_pos c'" "flag_pos c' = int (cc_pos c') - 2" "37 \<le> cc_pos c'"
      if "c' \<in> set CONTROLS" "ms ! msg_index c' = ms ! msg_index c" for c'
    proof -
      from same_message[OF fits that(1) c that(2)] have "msg_index c = msg_index c'" by simp
      from controls_apart[OF c that(1) this]
      show "c = c' \<or> cc_pos c + 11 \<le> cc_pos c' \<or> cc_pos c' + 11 \<le> cc_pos c" .
      from controls_layout that(1) show "ch_pos c' + 3 = cc_pos c'"
        "flag_pos c' = int (cc_pos c') - 2" "37 \<le> cc_pos c'" by blast+
    qed
    have ch_mem: "(msg_index c, ch_pos c, z) \<in> set ?ws"
      using c by (auto simp: channel_writes_set)
    have ch_fun: "\<forall>(m', p', v') \<in> set ?ws.
            ms ! m' = ms ! msg_index c \<and> p' = ch_pos c \<longrightarrow> v' = z"
    proof (clarify)
      fix m' p' v' assume w: "(m', ch_pos c, v') \<in> set ?ws"
        and e: "ms ! m' = ms ! msg_index c"
      from w consider "v' = z"
        | c' where "c' \<in> set CONTROLS" "m' = msg_index c'" "ch_pos c = nat (flag_pos c')"
            "v' = 0"
        by (auto simp: channel_writes_set)
      then show "v' = z"
      proof cases
        case 1
        then show ?thesis .
      next
        case (2 c')
        from apart[OF 2(1)] lay[OF 2(1)] e 2(2,3) lc have False by auto
        then show ?thesis ..
      qed
    qed
    from write_all_final[OF run ch_mem ch_fun]
    have ch: "byte_at h' ms (msg_index c) (ch_pos c) = nat z" by (simp add: byte_at_def)
    have fl: "byte_at h' ms (msg_index c) (nat (flag_pos c)) = 0" if f: "flag_pos c \<ge> 0"
    proof -
      have fl_mem: "(msg_index c, nat (flag_pos c), 0) \<in> set ?ws"
        using c f by (auto simp: channel_writes_set)
      have fl_fun: "\<forall>(m', p', v') \<in> set ?ws.
            ms ! m' = ms ! msg_index c \<and> p' = nat (flag_pos c) \<longrightarrow> v' = 0"
      proof (clarify)
        fix m' p' v' assume w: "(m', nat (flag_pos c), v') \<in> set ?ws"
          and e: "ms ! m' = ms ! msg_index c"
        from w consider "v' = 0"
          | c' where "c' \<in> set CONTROLS" "m' = msg_index c'" "nat (flag_pos c) = ch_pos c'"
          by (auto simp: channel_writes_set)
        then show "v' = 0"
        proof cases
          case 1
          then show ?thesis .
        next
          case (2 c')
          from apart[OF 2(1)] lay[OF 2(1)] e 2(2,3) lc have False by auto
          then show ?thesis ..
        qed
      qed
      from write_all_final[OF run fl_mem fl_fun] show ?thesis by (simp add: byte_at_def)
    qed
    from ch fl show ?thesis by simp
  qed
  with run show ?thesis by (auto simp: channel_loop_writes)
qed

lemma channel_positions_unpatched_by_cc:
  assumes run: "write_all (cc_writes CONTROLS 0 f) h ms = (r, h')"
    and fits: "fits h ms" and c: "c \<in> set CONTROLS"
  shows "byte_at h' ms (msg_index c) (ch_pos c) = byte_at h ms (msg_index c) (ch_pos c)"
    and "flag_pos c \<ge> 0 \<Longrightarrow>
         byte_at h' ms (msg_index c) (nat (flag_pos c)) = byte_at h ms (msg_index c) (nat (flag_pos c))"
proof -
  from controls_layout c have lc: "ch_pos c + 3 = cc_pos c" "flag_pos c = int (cc_pos c) - 2"
    "37 \<le> cc_pos c" by blast+
  have no: "\<forall>(m', p', v') \<in> set (cc_writes CONTROLS 0 f).
             \<not> (ms ! m' = ms ! msg_index c \<and> (p' = ch_pos c \<or> p' = nat (flag_pos c)))"
  proof (clarify)
    fix m' p' v' assume w: "(m', p', v') \<in> set (cc_writes CONTROLS 0 f)"
      and e: "ms ! m' = ms ! msg_index c" and p: "p' = ch_pos c \<or> p' = nat (flag_pos c)"
    from w obtain j where j: "j < length CONTROLS" "m' = msg_index (CONTROLS ! j)"
      "p' = cc_pos (CONTROLS ! j)" by (auto simp: cc_writes_set)
    then have c': "CONTROLS ! j \<in> set CONTROLS" by simp
    from same_message[OF fits c' c] e j have "msg_index c = msg_index (CONTROLS ! j)" by simp
    from controls_apart[OF c c' this] p j(3) lc show False by auto
  qed
  then have "\<forall>(m', p', v') \<in> set (cc_writes CONTROLS 0 f).
             \<not> (ms ! m' = ms ! msg_index c \<and> p' = ch_pos c)" by blast
  from write_all_frame[OF run this]
  show "byte_at h' ms (msg_index c) (ch_pos c) = byte_at h ms (msg_index c) (ch_pos c)"
    by (simp add: byte_at_def)
  from no have "\<forall>(m', p', v') \<in> set (cc_writes CONTROLS 0 f).
             \<not> (ms ! m' = ms ! msg_index c \<and> p' = nat (flag_pos c))" by blast
  from write_all_frame[OF run this]
  show "byte_at h' ms (msg_index c) (nat (flag_pos c))
          = byte_at h ms (msg_index c) (nat (flag_pos c))"
    by (simp add: byte_at_def)
qed

lemma new_bytearrays_eq:
  "new_bytearrays h msgs = ([length h ..< length h + length msgs], h @ msgs)"
proof (induction msgs arbitrary: h)
  case Nil
  then show ?case by simp
next
  case (Cons msg msgs)
  have "[length h ..< length h + length (msg # msgs)]
          = length h # [Suc (length h) ..< Suc (length h) + length msgs]"
    by (subst upt_rec) simp
  with Cons.IH[of "h @ [msg]"] show ?case by (simp add: new_bytearray_def)
qed

lemma clone_messages_eq:
  "clone_messages h g =
     ([length h ..< length h + length (base_messages g)],
      h @ map (\<lambda>a. h ! a) (base_messages g))"
  by (simp add: clone_messages_def new_bytearrays_eq)

lemma clone_ok:
  assumes "generator_ok h g"
  shows "clone_messages h g = ([length h, Suc (length h)], h @ EMBEDDED_MSGS)"
    and "fits (h @ EMBEDDED_MSGS) [length h, Suc (length h)]"
proof -
  from assms have e: "map (\<lambda>a. h ! a) (base_messages g) = EMBEDDED_MSGS"
    by (simp add: generator_ok_def)
  then have "length (base_messages g) = length EMBEDDED_MSGS" by (metis length_map)
  then have n: "length (base_messages g) = 2" by (simp add: EMBEDDED_MSGS_def)
  have "[length h ..< length h + 2] = [length h, Suc (length h)]"
    by (simp add: numeral_2_eq_2 upt_conv_Cons)
  with e n show "clone_messages h g = ([length h, Suc (length h)], h @ EMBEDDED_MSGS)"
    by (simp add: clone_messages_eq)
  show "fits (h @ EMBEDDED_MSGS) [length h, Suc (length h)]"
    by (rule fits_by_length)
       (simp_all add: EMBEDDED_MSGS_def embedded_lengths nth_append)
qed

lemma init_ok: "init [] = (g, h) \<Longrightarrow> generator_ok h g"
  by (auto simp: init_def new_bytearrays_eq generator_ok_def EMBEDDED_MSGS_def
      intro!: nth_equalityI)

text \<open>The steps of a call that returns.\<close>

lemma generate_template_returns:
  assumes "generate_template h g t channel_mode cc_mode global_channel min_cc cc_reverse
             = (Inr messages, h')"
  shows "\<exists>channel z h1 h2.
           clone_messages h g = (messages, h1)
         \<and> get_channel_for_template t channel_mode global_channel = Inr channel
         \<and> validate_channel channel = Inr z
         \<and> write_all (channel_writes CONTROLS z) h1 messages = (Inr (), h2)
         \<and> assign_continuous_controllers h2 messages (t - 1) cc_mode min_cc cc_reverse
             = (Inr (), h')"
  using assms
  by (auto simp: generate_template_def set_midi_channel_def set_button_modes_def Let_def
        channel_loop_writes
      split: prod.splits sum.splits)

text \<open>A call with a valid channel and a template number from 1 on returns.\<close>

lemma generate_template_run:
  assumes ok: "generator_ok h g"
    and ch: "get_channel_for_template t channel_mode global_channel = Inr channel"
      "1 \<le> channel" "channel \<le> 16"
    and t: "1 \<le> t"
  shows "\<exists>h'. generate_template h g t channel_mode cc_mode global_channel min_cc cc_reverse
               = (Inr [length h, Suc (length h)], h')
          \<and> (\<forall>c \<in> set CONTROLS.
               byte_at h' [length h, Suc (length h)] (msg_index c) (ch_pos c) = nat (channel - 1)
             \<and> (flag_pos c \<ge> 0 \<longrightarrow>
                  byte_at h' [length h, Suc (length h)] (msg_index c) (nat (flag_pos c)) = 0))"
proof -
  let ?ms = "[length h, Suc (length h)]"
  let ?h1 = "h @ EMBEDDED_MSGS"
  note clone = clone_ok[OF ok]
  from ch(2,3) have v: "validate_channel channel = Inr (channel - 1)"
    by (simp add: validate_channel_def MIN_MIDI_CHANNEL_def MAX_MIDI_CHANNEL_def)
  from ch(2,3) have z: "0 \<le> channel - 1" "channel - 1 \<le> 255" by simp_all
  from channel_run[OF clone(2) z] obtain h2 where
    run1: "channel_loop CONTROLS (channel - 1) ?h1 ?ms = (Inr (), h2)"
    and b1: "\<forall>c \<in> set CONTROLS.
             byte_at h2 ?ms (msg_index c) (ch_pos c) = nat (channel - 1) \<and>
             (flag_pos c \<ge> 0 \<longrightarrow> byte_at h2 ?ms (msg_index c) (nat (flag_pos c)) = 0)"
    by blast
  from run1 have "write_all (channel_writes CONTROLS (channel - 1)) ?h1 ?ms = (Inr (), h2)"
    by (simp add: channel_loop_writes)
  from write_all_fits[OF this clone(2)] have fits2: "fits h2 ?ms" .
  from t have t0: "0 \<le> t - 1" by simp
  from assign_run[OF fits2 t0, of cc_mode min_cc cc_reverse] obtain h' where
    run2: "assign_continuous_controllers h2 ?ms (t - 1) cc_mode min_cc cc_reverse = (Inr (), h')"
    by blast
  then have w2: "write_all (cc_writes CONTROLS 0
                   (assign_cc_value (t - 1) cc_mode (max min_cc SAFE_CC_MIN)
                      (SAFE_CC_MAX - max min_cc SAFE_CC_MIN + 1) cc_reverse)) h2 ?ms
                 = (Inr (), h')"
    by (simp add: assign_continuous_controllers_def Let_def assign_loop_writes)
  have "generate_template h g t channel_mode cc_mode global_channel min_cc cc_reverse
          = (Inr ?ms, h')"
    using clone(1) ch(1) v run1 run2
    by (simp add: generate_template_def set_midi_channel_def set_button_modes_def Let_def)
  moreover have "byte_at h' ?ms (msg_index c) (ch_pos c) = nat (channel - 1)
             \<and> (flag_pos c \<ge> 0 \<longrightarrow> byte_at h' ?ms (msg_index c) (nat (flag_pos c)) = 0)"
    if c: "c \<in> set CONTROLS" for c
    using channel_positions_unpatched_by_cc[OF w2 fits2 c] b1 c by simp
  ultimately show ?thesis by blast
qed

lemma clone_content:
  assumes "m < 2"
  shows "(h @ EMBEDDED_MSGS) ! ([length h, Suc (length h)] ! m) = EMBEDDED_MSGS ! m"
proof -
  from assms consider "m = 0" | "m = 1" by linarith
  then show ?thesis by cases (simp_all add: nth_append EMBEDDED_MSGS_def)
qed

lemma embedded_markers:
  "EMBEDDED_MSG_0 ! 0 = 0xF0" "EMBEDDED_MSG_1 ! 0 = 0xF0"
  "EMBEDDED_MSG_0 ! 341 = 0xF7" "EMBEDDED_MSG_1 ! 341 = 0xF7"
  by (simp_all add: EMBEDDED_MSG_0_def EMBEDDED_MSG_1_def)

lemma length_EMBEDDED_MSGS: "length EMBEDDED_MSGS = 2"
  by (simp add: EMBEDDED_MSGS_def)

lemma initial_generator_ok: "generator_ok EMBEDDED_MSGS \<lparr>base_messages = [0, 1]\<rparr>"
  by (simp add: generator_ok_def EMBEDDED_MSGS_def)

text \<open>
  C4.  For every template number \<open>t \<ge> 1\<close>, the channel is \<open>min t 16\<close> in per-template mode
  and the supplied global channel (1-16) in global mode; the call returns, the byte at
  every control's channel offset of the returned messages is the channel minus 1 and lies
  in [0,15], and the byte at every mode-flag offset is 0x00.
\<close>

theorem channel_assignment:
  assumes "generator_ok h g" and "1 \<le> t"
    and "channel_mode = PER_TEMPLATE \<and> channel = min t 16
         \<or> channel_mode = GLOBAL \<and> global_channel = Some channel \<and> 1 \<le> channel \<and> channel \<le> 16"
  shows "get_channel_for_template t channel_mode global_channel = Inr channel
       \<and> (\<exists>messages h'.
            generate_template h g t channel_mode cc_mode global_channel min_cc cc_reverse
              = (Inr messages, h')
          \<and> (\<forall>c \<in> set CONTROLS.
                int (byte_at h' messages (msg_index c) (ch_pos c)) = channel - 1
              \<and> byte_at h' messages (msg_index c) (ch_pos c) \<le> 15
              \<and> (flag_pos c \<ge> 0 \<longrightarrow>
                   byte_at h' messages (msg_index c) (nat (flag_pos c)) = 0x00)))"
proof -
  from assms(2,3) have ch: "get_channel_for_template t channel_mode global_channel = Inr channel"
    and range: "1 \<le> channel" "channel \<le> 16"
    by (auto simp: get_channel_for_template_def MAX_MIDI_CHANNEL_def)
  from generate_template_run[OF assms(1) ch range assms(2), of cc_mode min_cc cc_reverse]
  obtain h' where
    run: "generate_template h g t channel_mode cc_mode global_channel min_cc cc_reverse
            = (Inr [length h, Suc (length h)], h')"
    and b: "\<forall>c \<in> set CONTROLS.
               byte_at h' [length h, Suc (length h)] (msg_index c) (ch_pos c) = nat (channel - 1)
             \<and> (flag_pos c \<ge> 0 \<longrightarrow>
                  byte_at h' [length h, Suc (length h)] (msg_index c) (nat (flag_pos c)) = 0)"
    by blast
  from range have "int (nat (channel - 1)) = channel - 1" "nat (channel - 1) \<le> 15" by simp_all
  with b have "\<forall>c \<in> set CONTROLS.
                int (byte_at h' [length h, Suc (length h)] (msg_index c) (ch_pos c)) = channel - 1
              \<and> byte_at h' [length h, Suc (length h)] (msg_index c) (ch_pos c) \<le> 15
              \<and> (flag_pos c \<ge> 0 \<longrightarrow>
                   byte_at h' [length h, Suc (length h)] (msg_index c) (nat (flag_pos c)) = 0x00)"
    by simp
  with run ch show ?thesis by blast
qed

theorem channel_assignment_witness:
  "generator_ok EMBEDDED_MSGS \<lparr>base_messages = [0, 1]\<rparr> \<and> (1::int) \<le> 20
   \<and> (16::int) = min 20 16
   \<and> get_channel_for_template 20 PER_TEMPLATE None = Inr 16
   \<and> (\<exists>messages h'.
         generate_template EMBEDDED_MSGS \<lparr>base_messages = [0, 1]\<rparr> 20 PER_TEMPLATE
           RESTART_PER_TEMPLATE None 1 False = (Inr messages, h')
       \<and> (\<forall>c \<in> set CONTROLS.
             int (byte_at h' messages (msg_index c) (ch_pos c)) = 15
           \<and> (flag_pos c \<ge> 0 \<longrightarrow> byte_at h' messages (msg_index c) (nat (flag_pos c)) = 0x00)))"
proof -
  have t: "(1::int) \<le> 20" by simp
  have m: "PER_TEMPLATE = PER_TEMPLATE \<and> (16::int) = min 20 16
         \<or> PER_TEMPLATE = GLOBAL \<and> None = Some (16::int) \<and> (1::int) \<le> 16 \<and> (16::int) \<le> 16"
    by simp
  from channel_assignment[OF initial_generator_ok t m, of RESTART_PER_TEMPLATE 1 False]
    initial_generator_ok
  show ?thesis by simp blast
qed

text \<open>
  C6.  A global channel outside 1-16 (17, say) makes \<^verbatim>\<open>generate_template\<close> raise the
  invalid-channel error, as does a template number below 1 in per-template mode; global
  mode without a global channel raises the missing-parameter error.  In each case nothing is
  returned, and the heap left behind is the old heap followed by the two clones, byte for
  byte as cloned: no stored bytearray, the base messages included, and no byte of the clones
  has been written.  \<^verbatim>\<open>_set_midi_channel\<close> itself raises before its loop, on an unchanged
  heap.
\<close>

theorem validation_errors_eager:
  "(channel < 1 \<or> 16 < channel \<longrightarrow>
      generate_template h g t GLOBAL cc_mode (Some channel) min_cc cc_reverse
        = (Inl InvalidChannel, h @ map (\<lambda>a. h ! a) (base_messages g)))
   \<and> generate_template h g t GLOBAL cc_mode None min_cc cc_reverse
        = (Inl MissingParameter, h @ map (\<lambda>a. h ! a) (base_messages g))
   \<and> (t < 1 \<longrightarrow>
      generate_template h g t PER_TEMPLATE cc_mode global_channel min_cc cc_reverse
        = (Inl InvalidChannel, h @ map (\<lambda>a. h ! a) (base_messages g)))
   \<and> (channel < 1 \<or> 16 < channel \<longrightarrow>
      set_midi_channel h messages channel = (Inl InvalidChannel, h))"
proof -
  have bad: "validate_channel c = Inl InvalidChannel" if "c < 1 \<or> 16 < c" for c
    using that by (auto simp: validate_channel_def MIN_MIDI_CHANNEL_def MAX_MIDI_CHANNEL_def)
  have per: "min t MAX_MIDI_CHANNEL < 1 \<or> 16 < min t MAX_MIDI_CHANNEL" if "t < 1"
    using that by (simp add: MAX_MIDI_CHANNEL_def)
  show ?thesis
    using bad[of channel] bad[OF per]
    by (simp add: generate_template_def clone_messages_eq get_channel_for_template_def
          set_midi_channel_def)
qed

theorem validation_errors_eager_witness:
  "((17::int) < 1 \<or> 16 < (17::int))
   \<and> generate_template EMBEDDED_MSGS \<lparr>base_messages = [0, 1]\<rparr> 1 GLOBAL RESTART_PER_TEMPLATE
       (Some 17) 1 False
       = (Inl InvalidChannel, EMBEDDED_MSGS @ EMBEDDED_MSGS)
   \<and> generate_template EMBEDDED_MSGS \<lparr>base_messages = [0, 1]\<rparr> 1 GLOBAL RESTART_PER_TEMPLATE
       None 1 False
       = (Inl MissingParameter, EMBEDDED_MSGS @ EMBEDDED_MSGS)
   \<and> (0::int) < 1
   \<and> generate_template EMBEDDED_MSGS \<lparr>base_messages = [0, 1]\<rparr> 0 PER_TEMPLATE
       RESTART_PER_TEMPLATE None 1 False
       = (Inl InvalidChannel, EMBEDDED_MSGS @ EMBEDDED_MSGS)
   \<and> set_midi_channel EMBEDDED_MSGS [0, 1] 17 = (Inl InvalidChannel, EMBEDDED_MSGS)"
proof -
  have e: "[EMBEDDED_MSGS ! 0, EMBEDDED_MSGS ! Suc 0] = EMBEDDED_MSGS"
    by (simp add: EMBEDDED_MSGS_def)
  from validation_errors_eager[of 17 EMBEDDED_MSGS "\<lparr>base_messages = [0, 1]\<rparr>" 1
         RESTART_PER_TEMPLATE 1 False None "[0, 1]"]
       validation_errors_eager[of 17 EMBEDDED_MSGS "\<lparr>base_messages = [0, 1]\<rparr>" 0
         RESTART_PER_TEMPLATE 1 False None "[0, 1]"]
  show ?thesis by (simp add: e)
qed

text \<open>
  C9.  For every call of \<^verbatim>\<open>generate_template\<close> that returns: there are two output frames,
  each as long as its base frame; every byte at a position that is no control's
  \<^verbatim>\<open>cc_pos\<close>, \<^verbatim>\<open>ch_pos\<close> or \<^verbatim>\<open>flag_pos\<close> equals the byte of the base frame there, in
  particular the 0xF0 start byte, the 0xF7 end byte, the 29 bytes of preamble and every
  colour byte; and every bytearray that existed before the call, the stored base frames
  among them, is unchanged, so the generator state is as \<^verbatim>\<open>__init__\<close> left it.
\<close>

theorem generate_template_frame:
  assumes "generator_ok h g"
    and "generate_template h g t channel_mode cc_mode global_channel min_cc cc_reverse
           = (Inr messages, h')"
  shows "length messages = 2
       \<and> (\<forall>m<2. length (h' ! (messages ! m)) = length (EMBEDDED_MSGS ! m)
             \<and> (\<forall>p<length (EMBEDDED_MSGS ! m).
                   \<not> patched m p \<longrightarrow> byte_at h' messages m p = EMBEDDED_MSGS ! m ! p)
             \<and> byte_at h' messages m 0 = 0xF0
             \<and> byte_at h' messages m 341 = 0xF7
             \<and> (\<forall>p<29. byte_at h' messages m p = EMBEDDED_MSGS ! m ! p))
       \<and> (\<forall>c \<in> set CONTROLS.
             byte_at h' messages (msg_index c) (color_pos c)
               = EMBEDDED_MSGS ! msg_index c ! color_pos c)
       \<and> (\<forall>a<length h. h' ! a = h ! a)
       \<and> generator_ok h' g"
proof -
  let ?ms = "[length h, Suc (length h)]"
  let ?h1 = "h @ EMBEDDED_MSGS"
  note clone = clone_ok[OF assms(1)]
  from generate_template_returns[OF assms(2)] clone(1) obtain z h2 where
    ms: "messages = ?ms"
    and w1: "write_all (channel_writes CONTROLS z) ?h1 ?ms = (Inr (), h2)"
    and run2: "assign_continuous_controllers h2 ?ms (t - 1) cc_mode min_cc cc_reverse
                 = (Inr (), h')"
    by auto
  let ?f = "assign_cc_value (t - 1) cc_mode (max min_cc SAFE_CC_MIN)
              (SAFE_CC_MAX - max min_cc SAFE_CC_MIN + 1) cc_reverse"
  from run2 have w2: "write_all (cc_writes CONTROLS 0 ?f) h2 ?ms = (Inr (), h')"
    by (simp add: assign_continuous_controllers_def Let_def assign_loop_writes)
  have p1: "\<forall>(m', p', v') \<in> set (channel_writes CONTROLS z). m' < length ?ms \<and> patched m' p'"
    using channel_writes_patched by fastforce
  have p2: "\<forall>(m', p', v') \<in> set (cc_writes CONTROLS 0 ?f). m' < length ?ms \<and> patched m' p'"
    using cc_writes_patched by fastforce
  have d: "distinct ?ms" by simp
  have len: "length (h' ! a) = length (?h1 ! a)" for a
    using write_all_length[OF w1, of a] write_all_length[OF w2, of a] by simp
  have unp: "byte_at h' ?ms m p = EMBEDDED_MSGS ! m ! p" if "m < 2" "\<not> patched m p" for m p
  proof -
    from that(1) have m: "m < length ?ms" by simp
    from write_all_unpatched[OF w2 p2 d m that(2)] write_all_unpatched[OF w1 p1 d m that(2)]
    have "byte_at h' ?ms m p = byte_at ?h1 ?ms m p" by simp
    with clone_content[OF that(1), of h] show ?thesis by (simp add: byte_at_def)
  qed
  have frames: "length (h' ! (?ms ! m)) = length (EMBEDDED_MSGS ! m)
             \<and> (\<forall>p<length (EMBEDDED_MSGS ! m).
                   \<not> patched m p \<longrightarrow> byte_at h' ?ms m p = EMBEDDED_MSGS ! m ! p)
             \<and> byte_at h' ?ms m 0 = 0xF0
             \<and> byte_at h' ?ms m 341 = 0xF7
             \<and> (\<forall>p<29. byte_at h' ?ms m p = EMBEDDED_MSGS ! m ! p)" if m: "m < 2" for m
  proof -
    have np: "\<not> patched m p" if "p < 34 \<or> 341 \<le> p" for p
      using patched_range[of m p] that by auto
    have marks: "EMBEDDED_MSGS ! m ! 0 = 0xF0 \<and> EMBEDDED_MSGS ! m ! 341 = 0xF7"
    proof -
      from m consider "m = 0" | "m = 1" by linarith
      then show ?thesis by cases (simp_all add: EMBEDDED_MSGS_def embedded_markers)
    qed
    from len[of "?ms ! m"] clone_content[OF m, of h]
    have "length (h' ! (?ms ! m)) = length (EMBEDDED_MSGS ! m)" by simp
    moreover from unp[OF m] have "\<forall>p<length (EMBEDDED_MSGS ! m).
        \<not> patched m p \<longrightarrow> byte_at h' ?ms m p = EMBEDDED_MSGS ! m ! p"
      by blast
    moreover from unp[OF m np, of 0] marks have "byte_at h' ?ms m 0 = 0xF0" by simp
    moreover from unp[OF m np, of 341] marks have "byte_at h' ?ms m 341 = 0xF7" by simp
    moreover have "\<forall>p<29. byte_at h' ?ms m p = EMBEDDED_MSGS ! m ! p"
      using unp[OF m np] by simp
    ultimately show ?thesis by blast
  qed
  have colours: "byte_at h' ?ms (msg_index c) (color_pos c)
                   = EMBEDDED_MSGS ! msg_index c ! color_pos c" if c: "c \<in> set CONTROLS" for c
  proof -
    from controls_bounds c have "msg_index c < 2" by blast
    from unp[OF this color_not_patched[OF c]] show ?thesis .
  qed
  have old: "h' ! a = h ! a" if a: "a < length h" for a
  proof -
    from a have notin: "a \<notin> set ?ms" by simp
    from p1 have q1: "\<forall>(m, p, v) \<in> set (channel_writes CONTROLS z). m < length ?ms" by fastforce
    from p2 have q2: "\<forall>(m, p, v) \<in> set (cc_writes CONTROLS 0 ?f). m < length ?ms" by fastforce
    from write_all_other_addr[OF w2 q2 notin] write_all_other_addr[OF w1 q1 notin] a
    show ?thesis by (simp add: nth_append)
  qed
  have ok': "generator_ok h' g"
  proof -
    from assms(1) have b: "\<forall>a \<in> set (base_messages g). a < length h"
      and e: "map (\<lambda>a. h ! a) (base_messages g) = EMBEDDED_MSGS"
      by (simp_all add: generator_ok_def)
    have "length h' = length ?h1"
      using write_all_length[OF w1, of 0] write_all_length[OF w2, of 0] by simp
    with b have b': "\<forall>a \<in> set (base_messages g). a < length h'" by auto
    from b old have "map (\<lambda>a. h' ! a) (base_messages g) = map (\<lambda>a. h ! a) (base_messages g)"
      by simp
    with e b' show ?thesis by (simp add: generator_ok_def)
  qed
  have "length ?ms = 2" by simp
  moreover from frames have "\<forall>m<2. length (h' ! (?ms ! m)) = length (EMBEDDED_MSGS ! m)
             \<and> (\<forall>p<length (EMBEDDED_MSGS ! m).
                   \<not> patched m p \<longrightarrow> byte_at h' ?ms m p = EMBEDDED_MSGS ! m ! p)
             \<and> byte_at h' ?ms m 0 = 0xF0
             \<and> byte_at h' ?ms m 341 = 0xF7
             \<and> (\<forall>p<29. byte_at h' ?ms m p = EMBEDDED_MSGS ! m ! p)"
    by blast
  moreover from colours have "\<forall>c \<in> set CONTROLS.
             byte_at h' ?ms (msg_index c) (color_pos c) = EMBEDDED_MSGS ! msg_index c ! color_pos c"
    by blast
  moreover from old have "\<forall>a<length h. h' ! a = h ! a" by blast
  ultimately show ?thesis unfolding ms using ok' by blast
qed

theorem generate_template_frame_witness:
  "generator_ok EMBEDDED_MSGS \<lparr>base_messages = [0, 1]\<rparr>
   \<and> (\<exists>h'. generate_template EMBEDDED_MSGS \<lparr>base_messages = [0, 1]\<rparr> 3 PER_TEMPLATE CONTINUOUS
              None 1 False = (Inr [2, 3], h')
          \<and> byte_at h' [2, 3] 0 0 = 0xF0 \<and> byte_at h' [2, 3] 1 341 = 0xF7
          \<and> (\<forall>a<2. h' ! a = EMBEDDED_MSGS ! a)
          \<and> generator_ok h' \<lparr>base_messages = [0, 1]\<rparr>)"
proof -
  have ch: "get_channel_for_template 3 PER_TEMPLATE None = Inr 3"
    by (simp add: get_channel_for_template_def MAX_MIDI_CHANNEL_def)
  from generate_template_run[OF initial_generator_ok ch, of CONTINUOUS 1 False]
  obtain h' where run: "generate_template EMBEDDED_MSGS \<lparr>base_messages = [0, 1]\<rparr> 3
      PER_TEMPLATE CONTINUOUS None 1 False = (Inr [2, 3], h')"
    by (auto simp: length_EMBEDDED_MSGS numeral_2_eq_2 numeral_3_eq_3)
  from generate_template_frame[OF initial_generator_ok run]
  have frames: "\<forall>m<2. length (h' ! ([2, 3] ! m)) = length (EMBEDDED_MSGS ! m)
             \<and> (\<forall>p<length (EMBEDDED_MSGS ! m).
                   \<not> patched m p \<longrightarrow> byte_at h' [2, 3] m p = EMBEDDED_MSGS ! m ! p)
             \<and> byte_at h' [2, 3] m 0 = 0xF0
             \<and> byte_at h' [2, 3] m 341 = 0xF7
             \<and> (\<forall>p<29. byte_at h' [2, 3] m p = EMBEDDED_MSGS ! m ! p)"
    and old: "\<forall>a<length EMBEDDED_MSGS. h' ! a = EMBEDDED_MSGS ! a"
    and ok: "generator_ok h' \<lparr>base_messages = [0, 1]\<rparr>"
    by blast+
  from frames[rule_format, of 0] have "byte_at h' [2, 3] 0 0 = 0xF0" by simp
  moreover from frames[rule_format, of 1] have "byte_at h' [2, 3] 1 341 = 0xF7" by simp
  moreover from old have "\<forall>a<2. h' ! a = EMBEDDED_MSGS ! a"
    by (simp add: length_EMBEDDED_MSGS)
  ultimately show ?thesis using run ok initial_generator_ok by blast
qed

section \<open>Splitting and joining\<close>

lemma find_end_shift:
  "find_end (pre @ sysex_data) (length pre + end_idx) = length pre + find_end sysex_data end_idx"
proof (induction sysex_data end_idx rule: find_end.induct)
  case (1 sysex_data end_idx)
  show ?case
  proof (cases "end_idx < length sysex_data \<and> sysex_data ! end_idx \<noteq> 0xF7")
    case True
    then have "find_end sysex_data end_idx = find_end sysex_data (end_idx + 1)"
      by (subst find_end.simps) simp
    moreover from True
    have "find_end (pre @ sysex_data) (length pre + end_idx)
            = find_end (pre @ sysex_data) (length pre + (end_idx + 1))"
      by (subst find_end.simps) (simp add: nth_append)
    ultimately show ?thesis using "1.IH"[OF True] by simp
  next
    case False
    then have "find_end sysex_data end_idx = end_idx"
      by (subst find_end.simps) auto
    moreover from False have "find_end (pre @ sysex_data) (length pre + end_idx)
                                = length pre + end_idx"
      by (subst find_end.simps) (auto simp: nth_append)
    ultimately show ?thesis by simp
  qed
qed

lemma find_end_Cons:
  "find_end (b # sysex_data) (Suc end_idx) = Suc (find_end sysex_data end_idx)"
  using find_end_shift[of "[b]" sysex_data end_idx] by simp

lemma find_end_first:
  "0xF7 \<notin> set body \<Longrightarrow> find_end (body @ 0xF7 # rest) 0 = length body"
proof (induction body)
  case Nil
  show ?case by (subst find_end.simps) simp
next
  case (Cons b body)
  then have "find_end ((b # body) @ 0xF7 # rest) 0 = find_end ((b # body) @ 0xF7 # rest) (Suc 0)"
    by (subst find_end.simps) simp
  with Cons show ?case by (simp add: find_end_Cons)
qed

lemma find_end_none:
  "0xF7 \<notin> set tail \<Longrightarrow> find_end tail 0 = length tail"
proof (induction tail)
  case Nil
  show ?case by (subst find_end.simps) simp
next
  case (Cons b tail)
  then have "find_end (b # tail) 0 = find_end (b # tail) (Suc 0)"
    by (subst find_end.simps) simp
  with Cons show ?case by (simp add: find_end_Cons)
qed

text \<open>The four ways through one round of the outer loop.\<close>

lemma split_loop_done:
  "\<not> start < length sysex_data \<Longrightarrow> split_loop sysex_data start messages = messages"
  by (subst split_loop.simps) simp

lemma split_loop_skip:
  "start < length sysex_data \<Longrightarrow> sysex_data ! start \<noteq> 0xF0 \<Longrightarrow>
   split_loop sysex_data start messages = split_loop sysex_data (start + 1) messages"
  by (subst split_loop.simps) simp

lemma split_loop_take:
  "start < length sysex_data \<Longrightarrow> sysex_data ! start = 0xF0 \<Longrightarrow>
   find_end sysex_data (start + 1) < length sysex_data \<Longrightarrow>
   split_loop sysex_data start messages =
     split_loop sysex_data (find_end sysex_data (start + 1) + 1)
       (messages @ [take (find_end sysex_data (start + 1) + 1 - start) (drop start sysex_data)])"
  by (subst split_loop.simps) (simp add: Let_def)

lemma split_loop_open:
  "start < length sysex_data \<Longrightarrow> sysex_data ! start = 0xF0 \<Longrightarrow>
   \<not> find_end sysex_data (start + 1) < length sysex_data \<Longrightarrow>
   split_loop sysex_data start messages = messages"
  by (subst split_loop.simps) (simp add: Let_def)

lemma split_loop_acc:
  "split_loop sysex_data start messages = messages @ split_loop sysex_data start []"
proof (induction "length sysex_data - start" arbitrary: start messages rule: less_induct)
  case less
  show ?case
  proof (cases "start < length sysex_data")
    case False
    then show ?thesis by (simp add: split_loop_done)
  next
    case in_range: True
    show ?thesis
    proof (cases "sysex_data ! start \<noteq> 0xF0")
      case True
      from in_range have "length sysex_data - (start + 1) < length sysex_data - start" by simp
      from less[OF this, of messages]
      show ?thesis by (simp only: split_loop_skip[OF in_range True])
    next
      case False
      then have start_byte: "sysex_data ! start = 0xF0" by simp
      let ?e = "find_end sysex_data (start + 1)"
      show ?thesis
      proof (cases "?e < length sysex_data")
        case False
        then show ?thesis by (simp add: split_loop_open[OF in_range start_byte])
      next
        case True
        let ?f = "take (?e + 1 - start) (drop start sysex_data)"
        from find_end_ge[of "start + 1" sysex_data] True
        have m: "length sysex_data - (?e + 1) < length sysex_data - start" by simp
        have "split_loop sysex_data start messages
                = split_loop sysex_data (?e + 1) (messages @ [?f])"
          by (rule split_loop_take[OF in_range start_byte True])
        also have "\<dots> = (messages @ [?f]) @ split_loop sysex_data (?e + 1) []"
          by (rule less[OF m])
        also have "\<dots> = messages @ ([] @ [?f]) @ split_loop sysex_data (?e + 1) []"
          by simp
        also have "([] @ [?f]) @ split_loop sysex_data (?e + 1) []
                     = split_loop sysex_data (?e + 1) ([] @ [?f])"
          by (rule less[OF m, symmetric])
        also have "\<dots> = split_loop sysex_data start []"
          by (rule split_loop_take[OF in_range start_byte True, symmetric])
        finally show ?thesis .
      qed
    qed
  qed
qed

lemma split_loop_shift:
  "split_loop (pre @ sysex_data) (length pre + start) messages
     = split_loop sysex_data start messages"
proof (induction sysex_data start messages rule: split_loop.induct)
  case (1 sysex_data start messages)
  let ?d = "pre @ sysex_data"
  let ?s = "length pre + start"
  show ?case
  proof (cases "start < length sysex_data")
    case False
    then have "\<not> ?s < length ?d" by simp
    from split_loop_done[OF this] split_loop_done[OF False] show ?thesis by simp
  next
    case in_range: True
    then have in_range': "?s < length ?d" by simp
    have nth: "?d ! ?s = sysex_data ! start" by (simp add: nth_append)
    show ?thesis
    proof (cases "sysex_data ! start \<noteq> 0xF0")
      case True
      with nth have True': "?d ! ?s \<noteq> 0xF0" by simp
      have "split_loop ?d ?s messages = split_loop ?d (length pre + (start + 1)) messages"
        using split_loop_skip[OF in_range' True'] by (simp add: add.assoc)
      also have "\<dots> = split_loop sysex_data (start + 1) messages"
        by (rule "1.IH"(1)[OF in_range True])
      also have "\<dots> = split_loop sysex_data start messages"
        by (rule split_loop_skip[OF in_range True, symmetric])
      finally show ?thesis .
    next
      case False
      then have start_byte: "sysex_data ! start = 0xF0" by simp
      with nth have start_byte': "?d ! ?s = 0xF0" by simp
      let ?e = "find_end sysex_data (start + 1)"
      have e: "find_end ?d (?s + 1) = length pre + ?e"
        using find_end_shift[of pre sysex_data "start + 1"] by (simp add: add.assoc)
      show ?thesis
      proof (cases "?e < length sysex_data")
        case False
        with e have "\<not> find_end ?d (?s + 1) < length ?d" by simp
        from split_loop_open[OF in_range' start_byte' this]
          split_loop_open[OF in_range start_byte False]
        show ?thesis by simp
      next
        case True
        with e have True': "find_end ?d (?s + 1) < length ?d" by simp
        let ?f = "take (?e + 1 - start) (drop start sysex_data)"
        from find_end_ge[of "start + 1" sysex_data] have ge: "start < ?e + 1" by simp
        have slice: "take (find_end ?d (?s + 1) + 1 - ?s) (drop ?s ?d) = ?f"
          using ge e by simp
        have "split_loop ?d ?s messages
                = split_loop ?d (find_end ?d (?s + 1) + 1) (messages @ [?f])"
          using split_loop_take[OF in_range' start_byte' True', of messages]
          by (simp only: slice)
        also have "\<dots> = split_loop ?d (length pre + (?e + 1)) (messages @ [?f])"
          by (simp only: add.assoc find_end_shift)
        also have "\<dots> = split_loop sysex_data (?e + 1) (messages @ [?f])"
          by (rule "1.IH"(2)[OF in_range False refl True])
        also have "\<dots> = split_loop sysex_data start messages"
          by (rule split_loop_take[OF in_range start_byte True, symmetric])
        finally show ?thesis .
      qed
    qed
  qed
qed

text \<open>The four equations that determine the splitter.\<close>

lemma split_Nil: "split_sysex_messages [] = []"
  by (simp add: split_sysex_messages_def split_loop_done)

lemma split_skip:
  assumes "b \<noteq> 0xF0"
  shows "split_sysex_messages (b # rest) = split_sysex_messages rest"
proof -
  have "split_loop (b # rest) 0 [] = split_loop (b # rest) (0 + 1) []"
    by (rule split_loop_skip) (simp_all add: assms)
  also have "\<dots> = split_loop rest 0 []"
    using split_loop_shift[of "[b]" rest 0 "[]"] by simp
  finally show ?thesis by (simp add: split_sysex_messages_def)
qed

lemma split_frame:
  assumes "0xF7 \<notin> set body"
  shows "split_sysex_messages (0xF0 # body @ 0xF7 # rest)
           = (0xF0 # body @ [0xF7]) # split_sysex_messages rest"
proof -
  let ?d = "0xF0 # body @ 0xF7 # rest"
  let ?f = "0xF0 # body @ [0xF7]"
  have e': "find_end ?d (Suc 0) = Suc (length body)"
    using find_end_first[OF assms, of rest] by (simp add: find_end_Cons)
  then have e: "find_end ?d (0 + 1) = Suc (length body)" by simp
  have slice: "take (Suc (Suc (length body))) ?d = ?f" by simp
  have "split_loop ?d 0 [] = split_loop ?d (find_end ?d (0 + 1) + 1)
          ([] @ [take (find_end ?d (0 + 1) + 1 - 0) (drop 0 ?d)])"
    by (rule split_loop_take) (simp_all add: e')
  also have "\<dots> = split_loop ?d (Suc (Suc (length body))) [?f]"
    using slice by (simp add: e')
  also have "\<dots> = split_loop (?f @ rest) (length ?f + 0) [?f]" by simp
  also have "\<dots> = split_loop rest 0 [?f]" by (rule split_loop_shift)
  also have "\<dots> = ?f # split_loop rest 0 []" using split_loop_acc[of rest 0 "[?f]"] by simp
  finally show ?thesis by (simp add: split_sysex_messages_def)
qed

lemma split_unterminated:
  assumes "0xF7 \<notin> set tail"
  shows "split_sysex_messages (0xF0 # tail) = []"
proof -
  have "find_end (0xF0 # tail) (Suc 0) = Suc (length tail)"
    using find_end_none[OF assms] by (simp add: find_end_Cons)
  then have "\<not> find_end (0xF0 # tail) (0 + 1) < length (0xF0 # tail)" by simp
  from split_loop_open[OF _ _ this, of "[]"] show ?thesis
    by (simp add: split_sysex_messages_def)
qed

lemma split_well_formed: 
  "\<forall>f \<in> set frames. well_formed f \<Longrightarrow> split_sysex_messages (concat frames) = frames"
proof (induction frames)
  case Nil
  show ?case by (simp add: split_Nil)
next
  case (Cons f frames)
  then obtain body where f: "f = 0xF0 # body @ [0xF7]" and b: "0xF7 \<notin> set body"
    by (auto simp: well_formed_def)
  from split_frame[OF b, of "concat frames"] Cons f show ?case by simp
qed

text \<open>
  C7.  For a stream that is the concatenation of well-formed frames (0xF0, a body holding
  neither marker, 0xF7), splitting yields exactly those frames in order, and joining the
  split yields the stream again.
\<close>

theorem framer_round_trip:
  assumes "\<forall>f \<in> set frames. well_formed f"
  shows "split_sysex_messages (concat frames) = frames
       \<and> join_messages (split_sysex_messages (concat frames)) = concat frames"
  using split_well_formed[OF assms] by (simp add: join_messages_def)

theorem framer_round_trip_witness:
  "well_formed [0xF0, 0x01, 0x02, 0xF7] \<and> well_formed [0xF0, 0xF7]
   \<and> split_sysex_messages [0xF0, 0x01, 0x02, 0xF7, 0xF0, 0xF7]
       = [[0xF0, 0x01, 0x02, 0xF7], [0xF0, 0xF7]]
   \<and> join_messages (split_sysex_messages [0xF0, 0x01, 0x02, 0xF7, 0xF0, 0xF7])
       = [0xF0, 0x01, 0x02, 0xF7, 0xF0, 0xF7]"
proof -
  have w1: "well_formed [0xF0, 0x01, 0x02, 0xF7]"
    unfolding well_formed_def by (rule exI[of _ "[0x01, 0x02]"]) simp
  have w2: "well_formed [0xF0, 0xF7]"
    unfolding well_formed_def by (rule exI[of _ "[]"]) simp
  from w1 w2 have wf: "\<forall>f \<in> set [[0xF0, 0x01, 0x02, 0xF7], [0xF0, 0xF7]]. well_formed f"
    by simp
  from framer_round_trip[OF wf] w1 w2 show ?thesis by (simp add: join_messages_def)
qed

lemma split_drop_prefix:
  "0xF0 \<notin> set pre \<Longrightarrow> split_sysex_messages (pre @ rest) = split_sysex_messages rest"
  by (induction pre) (simp_all add: split_skip)

lemma split_unterminated_tail:
  assumes "0xF7 \<notin> set tail"
  shows "split_sysex_messages (xs @ 0xF0 # tail) = split_sysex_messages xs"
proof (induction "length xs" arbitrary: xs rule: less_induct)
  case less
  show ?case
  proof (cases xs)
    case Nil
    then show ?thesis by (simp add: split_unterminated[OF assms] split_Nil)
  next
    case (Cons b xs')
    show ?thesis
    proof (cases "b = 0xF0")
      case False
      from less[of xs'] Cons have "split_sysex_messages (xs' @ 0xF0 # tail)
                                     = split_sysex_messages xs'" by simp
      with Cons False show ?thesis by (simp add: split_skip)
    next
      case start_byte: True
      show ?thesis
      proof (cases "0xF7 \<in> set xs'")
        case True
        then obtain body rest where xs': "xs' = body @ 0xF7 # rest" and b: "0xF7 \<notin> set body"
          by (auto dest: split_list_first)
        from less[of rest] Cons xs'
        have "split_sysex_messages (rest @ 0xF0 # tail) = split_sysex_messages rest" by simp
        with split_frame[OF b, of "rest @ 0xF0 # tail"] split_frame[OF b, of rest]
        show ?thesis by (simp add: Cons start_byte xs')
      next
        case False
        with assms have "0xF7 \<notin> set (xs' @ 0xF0 # tail)" by simp
        from split_unterminated[OF this] split_unterminated[OF False]
        show ?thesis by (simp add: Cons start_byte)
      qed
    qed
  qed
qed

lemma split_spans:
  assumes "f \<in> set (split_sysex_messages x)"
  shows "\<exists>pre body post. x = pre @ f @ post \<and> f = 0xF0 # body @ [0xF7] \<and> 0xF7 \<notin> set body"
  using assms
proof (induction "length x" arbitrary: x rule: less_induct)
  case less
  show ?case
  proof (cases x)
    case Nil
    with less.prems show ?thesis by (simp add: split_Nil)
  next
    case (Cons b x')
    show ?thesis
    proof (cases "b = 0xF0")
      case False
      with less.prems Cons have "f \<in> set (split_sysex_messages x')" by (simp add: split_skip)
      from less.hyps[OF _ this] Cons obtain pre body post where
        "x' = pre @ f @ post" "f = 0xF0 # body @ [0xF7]" "0xF7 \<notin> set body" by auto
      with Cons have "x = (b # pre) @ f @ post \<and> f = 0xF0 # body @ [0xF7] \<and> 0xF7 \<notin> set body"
        by simp
      then show ?thesis by blast
    next
      case start_byte: True
      show ?thesis
      proof (cases "0xF7 \<in> set x'")
        case False
        from split_unterminated[OF this] less.prems Cons start_byte show ?thesis by simp
      next
        case True
        then obtain body rest where x': "x' = body @ 0xF7 # rest" and b: "0xF7 \<notin> set body"
          by (auto dest: split_list_first)
        let ?g = "0xF0 # body @ [0xF7]"
        from less.prems Cons start_byte x' split_frame[OF b, of rest]
        consider "f = ?g" | "f \<in> set (split_sysex_messages rest)" by auto
        then show ?thesis
        proof cases
          case 1
          with Cons start_byte x' have "x = [] @ f @ rest \<and> f = 0xF0 # body @ [0xF7]" by simp
          with b show ?thesis by blast
        next
          case 2
          from less.hyps[OF _ 2] Cons x' obtain pre body' post where
            r: "rest = pre @ f @ post" "f = 0xF0 # body' @ [0xF7]" "0xF7 \<notin> set body'" by auto
          with Cons start_byte x' have "x = (?g @ pre) @ f @ post" by simp
          with r(2,3) show ?thesis by blast
        qed
      qed
    qed
  qed
qed

text \<open>
  C8.  The splitter is total and drops silently: bytes before the first 0xF0 give no frame
  (a prefix without 0xF0 can be removed without changing the result); an unterminated
  trailing frame, a 0xF0 followed by no 0xF7 up to the end of the stream, gives no frame
  (it can be removed without changing the result); and every frame of the result is a
  complete span of the input, from a 0xF0 to the first 0xF7 after it.
\<close>

theorem splitter_drop_policy:
  "(0xF0 \<notin> set pre \<longrightarrow> split_sysex_messages (pre @ rest) = split_sysex_messages rest)
   \<and> (0xF7 \<notin> set tail \<longrightarrow>
        split_sysex_messages (xs @ 0xF0 # tail) = split_sysex_messages xs)
   \<and> (\<forall>f \<in> set (split_sysex_messages x).
        \<exists>before_f body after_f.
          x = before_f @ f @ after_f \<and> f = 0xF0 # body @ [0xF7] \<and> 0xF7 \<notin> set body)"
  using split_drop_prefix[of pre rest] split_unterminated_tail[of tail xs] split_spans[of _ x]
  by blast

theorem splitter_drop_policy_witness:
  "(0xF0 :: byte) \<notin> set [0x01, 0xF7]
   \<and> split_sysex_messages ([0x01, 0xF7] @ [0xF0, 0x05, 0xF7])
       = split_sysex_messages [0xF0, 0x05, 0xF7]
   \<and> (0xF7 :: byte) \<notin> set [0x09, 0xF0]
   \<and> split_sysex_messages ([0xF0, 0x05, 0xF7] @ 0xF0 # [0x09, 0xF0])
       = split_sysex_messages [0xF0, 0x05, 0xF7]
   \<and> [0xF0, 0x05, 0xF7] \<in> set (split_sysex_messages [0xF0, 0x05, 0xF7])
   \<and> (\<exists>before_f body after_f.
          [0xF0, 0x05, 0xF7 :: byte] = before_f @ [0xF0, 0x05, 0xF7] @ after_f
          \<and> [0xF0, 0x05, 0xF7] = 0xF0 # body @ [0xF7] \<and> (0xF7 :: byte) \<notin> set body)"
proof -
  have nb: "(0xF7 :: byte) \<notin> set [0x05]" by simp
  from split_frame[OF nb, of "[]"]
  have one: "split_sysex_messages [0xF0, 0x05, 0xF7] = [[0xF0, 0x05, 0xF7]]"
    by (simp add: split_Nil)
  have mem: "[0xF0, 0x05, 0xF7] \<in> set (split_sysex_messages [0xF0, 0x05, 0xF7])"
    by (simp only: one) simp
  have p: "(0xF0 :: byte) \<notin> set [0x01, 0xF7]" by simp
  have t: "(0xF7 :: byte) \<notin> set [0x09, 0xF0]" by simp
  note policy = splitter_drop_policy[of "[0x01, 0xF7]" "[0xF0, 0x05, 0xF7]" "[0x09, 0xF0]"
         "[0xF0, 0x05, 0xF7]" "[0xF0, 0x05, 0xF7]"]
  have a: "split_sysex_messages ([0x01, 0xF7] @ [0xF0, 0x05, 0xF7])
             = split_sysex_messages [0xF0, 0x05, 0xF7]"
    by (rule policy[THEN conjunct1, THEN mp, OF p])
  have b: "split_sysex_messages ([0xF0, 0x05, 0xF7] @ 0xF0 # [0x09, 0xF0])
             = split_sysex_messages [0xF0, 0x05, 0xF7]"
    by (rule policy[THEN conjunct2, THEN conjunct1, THEN mp, OF t])
  have c: "\<exists>before_f body after_f.
          [0xF0, 0x05, 0xF7 :: byte] = before_f @ [0xF0, 0x05, 0xF7] @ after_f
          \<and> [0xF0, 0x05, 0xF7] = 0xF0 # body @ [0xF7] \<and> (0xF7 :: byte) \<notin> set body"
    by (rule policy[THEN conjunct2, THEN conjunct2, THEN bspec, OF mem])
  from p a t b mem c show ?thesis by (intro conjI)
qed

section \<open>Colours\<close>

lemma all_positions_eq:
  "all_positions =
     [(0,0), (0,1), (0,2), (0,3), (0,4), (0,5), (0,6), (0,7),
      (1,0), (1,1), (1,2), (1,3), (1,4), (1,5), (1,6), (1,7),
      (2,0), (2,1), (2,2), (2,3), (2,4), (2,5), (2,6), (2,7),
      (3,0), (3,1), (3,2), (3,3), (3,4), (3,5), (3,6), (3,7),
      (4,0), (4,1), (4,2), (4,3), (4,4), (4,5), (4,6), (4,7),
      (5,0), (5,1), (5,2), (5,3), (5,4), (5,5), (5,6), (5,7)]"
  by (simp add: all_positions_def DEVICE_LAYOUT_def)

lemma length_all_positions: "length all_positions = 48"
  by (simp add: all_positions_eq)

lemma distinct_all_positions: "distinct all_positions"
  by (simp add: all_positions_eq)

lemma color_table:
  "color_map_get (find_color_name COLOR_MAP v) = (if v \<in> snd ` set COLOR_MAP then v else 0x03)"
  by (simp add: COLOR_MAP_def color_map_get_def)

lemma position_of_control:
  "i < 48 \<Longrightarrow> control_index_to_position i = Some (all_positions ! i)"
  by (simp add: control_index_to_position_def length_all_positions)

lemma position_inj:
  assumes "i < 48" "j < 48" "control_index_to_position i = control_index_to_position j"
  shows "i = j"
proof -
  from assms have "all_positions ! i = all_positions ! j" by (simp add: position_of_control)
  with distinct_all_positions assms(1,2) show ?thesis
    by (simp add: nth_eq_iff_index_eq length_all_positions)
qed

lemma color_location_inj:
  assumes "j < length CONTROLS" "i < length CONTROLS"
    "msg_index (CONTROLS ! j) = msg_index (CONTROLS ! i)"
    "color_pos (CONTROLS ! j) = color_pos (CONTROLS ! i)"
  shows "j = i"
proof -
  from controls_layout assms(1,2)
  have "color_pos (CONTROLS ! j) + 5 = cc_pos (CONTROLS ! j)"
    "color_pos (CONTROLS ! i) + 5 = cc_pos (CONTROLS ! i)" by simp_all
  with assms(4) have "cc_pos (CONTROLS ! j) = cc_pos (CONTROLS ! i)" by simp
  from cc_location_inj[OF assms(1,2,3) this] show ?thesis .
qed

text \<open>The extraction loop: a key no control of the rest maps to keeps its colour.\<close>

lemma extract_loop_other:
  "\<forall>j<length cs. control_index_to_position (i0 + j) \<noteq> Some k \<Longrightarrow>
   extract_loop cs i0 messages cols k = cols k"
proof (induction cs arbitrary: i0 cols)
  case Nil
  show ?case by simp
next
  case (Cons c cs)
  from Cons.prems have here: "control_index_to_position i0 \<noteq> Some k"
    by (metis add.right_neutral length_greater_0_conv list.distinct(1))
  have rest: "\<forall>j<length cs. control_index_to_position (Suc i0 + j) \<noteq> Some k"
  proof (intro allI impI)
    fix j assume "j < length cs"
    then have "Suc j < length (c # cs)" by simp
    with Cons.prems have "control_index_to_position (i0 + Suc j) \<noteq> Some k" by blast
    then show "control_index_to_position (Suc i0 + j) \<noteq> Some k" by simp
  qed
  note IH = Cons.IH[OF rest]
  show ?case
  proof (cases "msg_index c < length messages \<and> color_pos c < length (messages ! msg_index c)")
    case False
    with IH show ?thesis by auto
  next
    case True
    show ?thesis
    proof (cases "control_index_to_position i0")
      case None
      with True IH show ?thesis by simp
    next
      case (Some rc)
      obtain row col where rc: "rc = (row, col)" by (cases rc)
      with Some here have "(row, col) \<noteq> k" by auto
      with True Some rc IH show ?thesis by (simp add: Let_def)
    qed
  qed
qed

text \<open>The colour a control in range leaves at its own key.\<close>

lemma extract_loop_key:
  "j < length cs \<Longrightarrow>
   msg_index (cs ! j) < length messages \<Longrightarrow>
   color_pos (cs ! j) < length (messages ! msg_index (cs ! j)) \<Longrightarrow>
   control_index_to_position (i0 + j) = Some k \<Longrightarrow>
   \<forall>j'<length cs. j' \<noteq> j \<longrightarrow> control_index_to_position (i0 + j') \<noteq> Some k \<Longrightarrow>
   extract_loop cs i0 messages cols k
     = Some (find_color_name COLOR_MAP (messages ! msg_index (cs ! j) ! color_pos (cs ! j)))"
proof (induction cs arbitrary: i0 j cols)
  case Nil
  then show ?case by simp
next
  case (Cons c cs)
  show ?case
  proof (cases j)
    case 0
    have rest: "\<forall>j'<length cs. control_index_to_position (Suc i0 + j') \<noteq> Some k"
    proof (intro allI impI)
      fix j' assume "j' < length cs"
      then have "Suc j' < length (c # cs)" "Suc j' \<noteq> j" using 0 by simp_all
      with Cons.prems(5) have "control_index_to_position (i0 + Suc j') \<noteq> Some k" by blast
      then show "control_index_to_position (Suc i0 + j') \<noteq> Some k" by simp
    qed
    from Cons.prems(4) 0 have pos: "control_index_to_position i0 = Some k" by simp
    obtain row col where k: "k = (row, col)" by (cases k)
    from Cons.prems(2,3) 0 have inr: "msg_index c < length messages"
      "color_pos c < length (messages ! msg_index c)" by simp_all
    from extract_loop_other[OF rest] inr pos k 0 show ?thesis by (simp add: Let_def)
  next
    case (Suc j0)
    with Cons.prems have j0: "j0 < length cs"
      and inr: "msg_index (cs ! j0) < length messages"
        "color_pos (cs ! j0) < length (messages ! msg_index (cs ! j0))"
      and pos: "control_index_to_position (Suc i0 + j0) = Some k"
      by simp_all
    have others: "\<forall>j'<length cs. j' \<noteq> j0 \<longrightarrow> control_index_to_position (Suc i0 + j') \<noteq> Some k"
    proof (intro allI impI)
      fix j' assume "j' < length cs" "j' \<noteq> j0"
      then have "Suc j' < length (c # cs)" "Suc j' \<noteq> j" using Suc by simp_all
      with Cons.prems(5) have "control_index_to_position (i0 + Suc j') \<noteq> Some k" by blast
      then show "control_index_to_position (Suc i0 + j') \<noteq> Some k" by simp
    qed
    note IH = Cons.IH[OF j0 inr pos others]
    show ?thesis
    proof (cases "msg_index c < length messages \<and> color_pos c < length (messages ! msg_index c)")
      case False
      with IH Suc show ?thesis by auto
    next
      case True
      show ?thesis
      proof (cases "control_index_to_position i0")
        case None
        with True IH Suc show ?thesis by simp
      next
        case (Some rc)
        obtain row col where rc: "rc = (row, col)" by (cases rc)
        with True Some IH Suc show ?thesis by (simp add: Let_def)
      qed
    qed
  qed
qed

text \<open>The application loop keeps the shape of the messages.\<close>

lemma apply_loop_length:
  "length (apply_loop cs i0 cols messages) = length messages
   \<and> (\<forall>m. length (apply_loop cs i0 cols messages ! m) = length (messages ! m))"
proof (induction cs arbitrary: i0 messages)
  case Nil
  show ?case by simp
next
  case (Cons c cs)
  show ?case
  proof (cases "msg_index c < length messages \<and> color_pos c < length (messages ! msg_index c)")
    case False
    with Cons.IH[of "Suc i0" messages] show ?thesis by auto
  next
    case True
    show ?thesis
    proof (cases "control_index_to_position i0")
      case None
      with True Cons.IH[of "Suc i0" messages] show ?thesis by simp
    next
      case (Some rc)
      obtain row col where rc: "rc = (row, col)" by (cases rc)
      let ?v = "color_map_get (case cols (row, col) of Some n \<Rightarrow> n | None \<Rightarrow> ''off'')"
      let ?ms = "messages[msg_index c := (messages ! msg_index c)[color_pos c := ?v]]"
      have step: "apply_loop (c # cs) i0 cols messages = apply_loop cs (Suc i0) cols ?ms"
        using True Some rc by (simp add: Let_def)
      have "length (?ms ! m) = length (messages ! m)" for m
        using True by (cases "m = msg_index c") simp_all
      with Cons.IH[of "Suc i0" ?ms] step show ?thesis by simp
    qed
  qed
qed

text \<open>A position that is no colour offset of the controls of the loop is left as it is.\<close>

lemma apply_loop_other:
  "\<forall>j<length cs. \<not> (msg_index (cs ! j) = m \<and> color_pos (cs ! j) = p) \<Longrightarrow>
   apply_loop cs i0 cols messages ! m ! p = messages ! m ! p"
proof (induction cs arbitrary: i0 messages)
  case Nil
  show ?case by simp
next
  case (Cons c cs)
  from Cons.prems have here: "\<not> (msg_index c = m \<and> color_pos c = p)"
    by (metis length_greater_0_conv list.distinct(1) nth_Cons_0)
  have rest: "\<forall>j<length cs. \<not> (msg_index (cs ! j) = m \<and> color_pos (cs ! j) = p)"
  proof (intro allI impI)
    fix j assume "j < length cs"
    then have "Suc j < length (c # cs)" by simp
    with Cons.prems have "\<not> (msg_index ((c # cs) ! Suc j) = m \<and> color_pos ((c # cs) ! Suc j) = p)"
      by blast
    then show "\<not> (msg_index (cs ! j) = m \<and> color_pos (cs ! j) = p)" by simp
  qed
  note IH = Cons.IH[OF rest]
  show ?case
  proof (cases "msg_index c < length messages \<and> color_pos c < length (messages ! msg_index c)")
    case False
    with IH[of "Suc i0" messages] show ?thesis by auto
  next
    case True
    show ?thesis
    proof (cases "control_index_to_position i0")
      case None
      with True IH[of "Suc i0" messages] show ?thesis by simp
    next
      case (Some rc)
      obtain row col where rc: "rc = (row, col)" by (cases rc)
      let ?v = "color_map_get (case cols (row, col) of Some n \<Rightarrow> n | None \<Rightarrow> ''off'')"
      let ?ms = "messages[msg_index c := (messages ! msg_index c)[color_pos c := ?v]]"
      have step: "apply_loop (c # cs) i0 cols messages = apply_loop cs (Suc i0) cols ?ms"
        using True Some rc by (simp add: Let_def)
      have "?ms ! m ! p = messages ! m ! p"
        using True here by (cases "m = msg_index c") auto
      with IH[of "Suc i0" ?ms] step show ?thesis by simp
    qed
  qed
qed

text \<open>A control in range writes the byte of the colour at its key, if no other control of
  the loop has the same colour offset.\<close>

lemma apply_loop_key:
  "j < length cs \<Longrightarrow>
   msg_index (cs ! j) < length messages \<Longrightarrow>
   color_pos (cs ! j) < length (messages ! msg_index (cs ! j)) \<Longrightarrow>
   control_index_to_position (i0 + j) = Some k \<Longrightarrow>
   \<forall>j'<length cs. j' \<noteq> j \<longrightarrow>
      \<not> (msg_index (cs ! j') = msg_index (cs ! j) \<and> color_pos (cs ! j') = color_pos (cs ! j)) \<Longrightarrow>
   apply_loop cs i0 cols messages ! msg_index (cs ! j) ! color_pos (cs ! j)
     = color_map_get (case cols k of Some n \<Rightarrow> n | None \<Rightarrow> ''off'')"
proof (induction cs arbitrary: i0 j messages)
  case Nil
  then show ?case by simp
next
  case (Cons c cs)
  show ?case
  proof (cases j)
    case 0
    have rest: "\<forall>j'<length cs.
                  \<not> (msg_index (cs ! j') = msg_index c \<and> color_pos (cs ! j') = color_pos c)"
    proof (intro allI impI)
      fix j' assume "j' < length cs"
      then have "Suc j' < length (c # cs)" "Suc j' \<noteq> j" using 0 by simp_all
      with Cons.prems(5) 0 show
        "\<not> (msg_index (cs ! j') = msg_index c \<and> color_pos (cs ! j') = color_pos c)"
        by fastforce
    qed
    from Cons.prems(4) 0 have pos: "control_index_to_position i0 = Some k" by simp
    obtain row col where k: "k = (row, col)" by (cases k)
    from Cons.prems(2,3) 0 have inr: "msg_index c < length messages"
      "color_pos c < length (messages ! msg_index c)" by simp_all
    let ?v = "color_map_get (case cols (row, col) of Some n \<Rightarrow> n | None \<Rightarrow> ''off'')"
    let ?ms = "messages[msg_index c := (messages ! msg_index c)[color_pos c := ?v]]"
    have step: "apply_loop (c # cs) i0 cols messages = apply_loop cs (Suc i0) cols ?ms"
      using inr pos k by (simp add: Let_def)
    have "?ms ! msg_index c ! color_pos c = ?v" using inr by simp
    with apply_loop_other[OF rest, of "Suc i0" cols ?ms] step 0 k show ?thesis by simp
  next
    case (Suc j0)
    with Cons.prems have j0: "j0 < length cs"
      and inr: "msg_index (cs ! j0) < length messages"
        "color_pos (cs ! j0) < length (messages ! msg_index (cs ! j0))"
      and pos: "control_index_to_position (Suc i0 + j0) = Some k"
      by simp_all
    have others: "\<forall>j'<length cs. j' \<noteq> j0 \<longrightarrow>
        \<not> (msg_index (cs ! j') = msg_index (cs ! j0) \<and> color_pos (cs ! j') = color_pos (cs ! j0))"
    proof (intro allI impI)
      fix j' assume "j' < length cs" "j' \<noteq> j0"
      then have "Suc j' < length (c # cs)" "Suc j' \<noteq> j" using Suc by simp_all
      with Cons.prems(5) Suc show
        "\<not> (msg_index (cs ! j') = msg_index (cs ! j0) \<and> color_pos (cs ! j') = color_pos (cs ! j0))"
        by fastforce
    qed
    have first: "\<not> (msg_index c = msg_index (cs ! j0) \<and> color_pos c = color_pos (cs ! j0))"
    proof -
      have "0 < length (c # cs)" "(0::nat) \<noteq> j" using Suc by simp_all
      with Cons.prems(5) Suc show ?thesis by fastforce
    qed
    show ?thesis
    proof (cases "msg_index c < length messages \<and> color_pos c < length (messages ! msg_index c)")
      case False
      with Cons.IH[OF j0 inr pos others] Suc show ?thesis by auto
    next
      case True
      show ?thesis
      proof (cases "control_index_to_position i0")
        case None
        with True Cons.IH[OF j0 inr pos others] Suc show ?thesis by simp
      next
        case (Some rc)
        obtain row col where rc: "rc = (row, col)" by (cases rc)
        let ?v = "color_map_get (case cols (row, col) of Some n \<Rightarrow> n | None \<Rightarrow> ''off'')"
        let ?ms = "messages[msg_index c := (messages ! msg_index c)[color_pos c := ?v]]"
        have step: "apply_loop (c # cs) i0 cols messages = apply_loop cs (Suc i0) cols ?ms"
          using True Some rc by (simp add: Let_def)
        have len: "length ?ms = length messages" by simp
        have len_m: "length (?ms ! msg_index (cs ! j0)) = length (messages ! msg_index (cs ! j0))"
          using True by (cases "msg_index (cs ! j0) = msg_index c") simp_all
        from inr len len_m have inr': "msg_index (cs ! j0) < length ?ms"
          "color_pos (cs ! j0) < length (?ms ! msg_index (cs ! j0))" by simp_all
        from Cons.IH[OF j0 inr' pos others] step Suc show ?thesis by simp
      qed
    qed
  qed
qed

lemma round_trip_frames:
  assumes m: "m < length frames" and p: "p < length (frames ! m)"
  shows "apply_loop CONTROLS 0 (extract_loop CONTROLS 0 frames cols) frames ! m ! p
           = (if color_offset m p
              then color_map_get (find_color_name COLOR_MAP (frames ! m ! p))
              else frames ! m ! p)"
proof (cases "color_offset m p")
  case False
  then have "\<forall>j<length CONTROLS.
               \<not> (msg_index (CONTROLS ! j) = m \<and> color_pos (CONTROLS ! j) = p)"
    unfolding color_offset_def by (metis nth_mem)
  from apply_loop_other[OF this] False show ?thesis by simp
next
  case True
  then obtain j where j: "j < length CONTROLS" and mj: "msg_index (CONTROLS ! j) = m"
    and pj: "color_pos (CONTROLS ! j) = p"
    unfolding color_offset_def by (auto simp: in_set_conv_nth)
  let ?k = "all_positions ! j"
  from j have j48: "j < 48" by (simp add: length_CONTROLS)
  then have pos: "control_index_to_position (0 + j) = Some ?k"
    by (simp add: position_of_control)
  from m p mj pj have inr: "msg_index (CONTROLS ! j) < length frames"
    "color_pos (CONTROLS ! j) < length (frames ! msg_index (CONTROLS ! j))" by simp_all
  have keys: "\<forall>j'<length CONTROLS. j' \<noteq> j \<longrightarrow> control_index_to_position (0 + j') \<noteq> Some ?k"
  proof (intro allI impI)
    fix j' assume j': "j' < length CONTROLS" "j' \<noteq> j"
    show "control_index_to_position (0 + j') \<noteq> Some ?k"
    proof
      assume "control_index_to_position (0 + j') = Some ?k"
      with pos have "control_index_to_position j' = control_index_to_position j" by simp
      from position_inj[OF _ j48 this] j'(1) have "j' = j" by (simp add: length_CONTROLS)
      with j'(2) show False by simp
    qed
  qed
  have locs: "\<forall>j'<length CONTROLS. j' \<noteq> j \<longrightarrow>
      \<not> (msg_index (CONTROLS ! j') = msg_index (CONTROLS ! j)
         \<and> color_pos (CONTROLS ! j') = color_pos (CONTROLS ! j))"
    using color_location_inj[OF _ j] by blast
  from extract_loop_key[OF j inr pos keys, of cols]
  have "extract_loop CONTROLS 0 frames cols ?k
          = Some (find_color_name COLOR_MAP (frames ! m ! p))"
    by (simp add: mj pj)
  with apply_loop_key[OF j inr pos locs, of "extract_loop CONTROLS 0 frames cols"] True
  show ?thesis by (simp add: mj pj)
qed

text \<open>
  C2.  For a stream \<open>x\<close> that is the concatenation of well-formed frames, applying the
  colours extracted from \<open>x\<close> back to \<open>x\<close> gives a stream of frames of the same lengths
  that equals \<open>x\<close> at every byte that is not at a colour offset of the control table, and
  holds at each colour offset the ColorTable byte of the extracted colour name: the
  original byte when it is a value of the table, the byte 0x03 of \<^verbatim>\<open>'off'\<close> otherwise.  So
  the result is \<open>x\<close> itself when every byte at a colour offset is a value of the table.
\<close>

theorem color_round_trip:
  assumes "\<forall>f \<in> set frames. well_formed f"
  shows "\<exists>frames'.
           apply_colors_to_sysex (extract_colors_from_sysex cols (concat frames))
             (concat frames) = concat frames'
         \<and> length frames' = length frames
         \<and> (\<forall>m<length frames.
               length (frames' ! m) = length (frames ! m)
             \<and> (\<forall>p<length (frames ! m).
                   frames' ! m ! p =
                     (if color_offset m p
                      then color_map_get (find_color_name COLOR_MAP (frames ! m ! p))
                      else frames ! m ! p)))
         \<and> (\<forall>v. color_map_get (find_color_name COLOR_MAP v)
                  = (if v \<in> snd ` set COLOR_MAP then v else 0x03))
         \<and> ((\<forall>m<length frames. \<forall>p<length (frames ! m).
                color_offset m p \<longrightarrow> frames ! m ! p \<in> snd ` set COLOR_MAP)
             \<longrightarrow> apply_colors_to_sysex (extract_colors_from_sysex cols (concat frames))
                   (concat frames) = concat frames)"
proof -
  let ?cols = "extract_loop CONTROLS 0 frames cols"
  let ?res = "apply_loop CONTROLS 0 ?cols frames"
  from split_well_formed[OF assms]
  have run: "apply_colors_to_sysex (extract_colors_from_sysex cols (concat frames))
               (concat frames) = concat ?res"
    by (simp add: apply_colors_to_sysex_def extract_colors_from_sysex_def join_messages_def)
  have len: "length ?res = length frames" "\<And>m. length (?res ! m) = length (frames ! m)"
    using apply_loop_length[of CONTROLS 0 ?cols frames] by simp_all
  have bytes: "\<forall>m<length frames.
               length (?res ! m) = length (frames ! m)
             \<and> (\<forall>p<length (frames ! m).
                   ?res ! m ! p =
                     (if color_offset m p
                      then color_map_get (find_color_name COLOR_MAP (frames ! m ! p))
                      else frames ! m ! p))"
    using len(2) round_trip_frames[of _ frames _ cols] by blast
  have same: "?res = frames"
    if tab: "\<forall>m<length frames. \<forall>p<length (frames ! m).
                color_offset m p \<longrightarrow> frames ! m ! p \<in> snd ` set COLOR_MAP"
  proof (rule nth_equalityI)
    show "length ?res = length frames" by (rule len(1))
  next
    fix m assume "m < length ?res"
    with len(1) have m: "m < length frames" by simp
    show "?res ! m = frames ! m"
    proof (rule nth_equalityI)
      show "length (?res ! m) = length (frames ! m)" by (rule len(2))
    next
      fix p assume "p < length (?res ! m)"
      with len(2) have p: "p < length (frames ! m)" by simp
      show "?res ! m ! p = frames ! m ! p"
      proof (cases "color_offset m p")
        case True
        with tab m p have "frames ! m ! p \<in> snd ` set COLOR_MAP" by blast
        with round_trip_frames[OF m p, of cols] True show ?thesis
          by (simp only: color_table if_True)
      next
        case False
        with round_trip_frames[OF m p, of cols] show ?thesis by simp
      qed
    qed
  qed
  have tbl: "\<forall>v. color_map_get (find_color_name COLOR_MAP v)
                  = (if v \<in> snd ` set COLOR_MAP then v else 0x03)"
    using color_table by blast
  from same run have last:
    "(\<forall>m<length frames. \<forall>p<length (frames ! m).
         color_offset m p \<longrightarrow> frames ! m ! p \<in> snd ` set COLOR_MAP)
     \<longrightarrow> apply_colors_to_sysex (extract_colors_from_sysex cols (concat frames))
           (concat frames) = concat frames"
    by simp
  from run len(1) bytes tbl last show ?thesis by blast
qed

lemma color_offset_first: "color_offset 0 32" "\<not> color_offset 0 31"
proof -
  have "Control 0 37 34 32 35 \<in> set CONTROLS" by (simp add: CONTROLS_def)
  then show "color_offset 0 32" unfolding color_offset_def by force
  show "\<not> color_offset 0 31" using controls_layout unfolding color_offset_def by fastforce
qed

theorem color_round_trip_witness:
  "well_formed
     [0xF0, 0x01, 0x01, 0x01, 0x01, 0x01, 0x01, 0x01, 0x01, 0x01, 0x01, 0x01, 0x01,
      0x01, 0x01, 0x01, 0x01, 0x01, 0x01, 0x01, 0x01, 0x01, 0x01, 0x01, 0x01, 0x01,
      0x01, 0x01, 0x01, 0x01, 0x01, 0x01, 0x7E, 0xF7 :: byte]
   \<and> (\<exists>frames'.
         apply_colors_to_sysex
           (extract_colors_from_sysex Map.empty
              [0xF0, 0x01, 0x01, 0x01, 0x01, 0x01, 0x01, 0x01, 0x01, 0x01, 0x01, 0x01,
               0x01, 0x01, 0x01, 0x01, 0x01, 0x01, 0x01, 0x01, 0x01, 0x01, 0x01, 0x01,
               0x01, 0x01, 0x01, 0x01, 0x01, 0x01, 0x01, 0x01, 0x7E, 0xF7 :: byte])
           [0xF0, 0x01, 0x01, 0x01, 0x01, 0x01, 0x01, 0x01, 0x01, 0x01, 0x01, 0x01,
            0x01, 0x01, 0x01, 0x01, 0x01, 0x01, 0x01, 0x01, 0x01, 0x01, 0x01, 0x01,
            0x01, 0x01, 0x01, 0x01, 0x01, 0x01, 0x01, 0x01, 0x7E, 0xF7 :: byte]
           = concat frames'
       \<and> length frames' = 1 \<and> length (frames' ! 0) = 34
       \<and> frames' ! 0 ! 31 = 0x01 \<and> frames' ! 0 ! 32 = 0x03)"
proof -
  let ?f = "[0xF0, 0x01, 0x01, 0x01, 0x01, 0x01, 0x01, 0x01, 0x01, 0x01, 0x01, 0x01,
   0x01, 0x01, 0x01, 0x01, 0x01, 0x01, 0x01, 0x01, 0x01, 0x01, 0x01, 0x01, 0x01, 0x01,
   0x01, 0x01, 0x01, 0x01, 0x01, 0x01, 0x7E, 0xF7 :: byte]"
  have wf: "well_formed ?f"
    unfolding well_formed_def
    by (rule exI[of _ "[0x01, 0x01, 0x01, 0x01, 0x01, 0x01, 0x01, 0x01, 0x01, 0x01,
     0x01, 0x01, 0x01, 0x01, 0x01, 0x01, 0x01, 0x01, 0x01, 0x01, 0x01, 0x01, 0x01, 0x01,
     0x01, 0x01, 0x01, 0x01, 0x01, 0x01, 0x01, 0x7E :: byte]"]) simp
  then have all: "\<forall>f \<in> set [?f]. well_formed f" by simp
  from color_round_trip[OF all, of Map.empty] obtain frames' where
    run: "apply_colors_to_sysex (extract_colors_from_sysex Map.empty (concat [?f])) (concat [?f])
            = concat frames'"
    and len: "length frames' = length [?f]"
    and bytes: "\<forall>m<length [?f].
               length (frames' ! m) = length ([?f] ! m)
             \<and> (\<forall>p<length ([?f] ! m).
                   frames' ! m ! p =
                     (if color_offset m p
                      then color_map_get (find_color_name COLOR_MAP ([?f] ! m ! p))
                      else [?f] ! m ! p))"
    by blast
  from bytes have b0: "length (frames' ! 0) = length ?f
      \<and> (\<forall>p<length ?f. frames' ! 0 ! p =
             (if color_offset 0 p then color_map_get (find_color_name COLOR_MAP (?f ! p))
              else ?f ! p))"
    by simp
  have l: "length ?f = 34" by simp
  from b0 l have l0: "length (frames' ! 0) = 34" by simp
  from b0 have at: "p < 34 \<Longrightarrow> frames' ! 0 ! p =
             (if color_offset 0 p then color_map_get (find_color_name COLOR_MAP (?f ! p))
              else ?f ! p)" for p
    using l by simp
  have "frames' ! 0 ! 31 = 0x01"
    using at[of 31] color_offset_first(2) by simp
  moreover have "frames' ! 0 ! 32 = 0x03"
    using at[of 32] color_offset_first(1) by (simp add: COLOR_MAP_def color_map_get_def)
  moreover from run have "apply_colors_to_sysex (extract_colors_from_sysex Map.empty ?f) ?f
                            = concat frames'" by simp
  moreover from len have "length frames' = 1" by simp
  ultimately show ?thesis using wf l0 by blast
qed

end
